theory Spec2Isabelle
  imports Main
begin

section \<open>Payload types of \<open>src/index.ts\<close>\<close>

datatype HTTP_METHODS = HTTP_POST_METHOD | HTTP_GET_METHOD

datatype HTTP_STATUSES = HTTP_STATUS_OK | HTTP_STATUS_INTERNAL_SERVER_ERROR

datatype Roles = USER | ADMIN

text \<open>
  \<open>IUser\<close>: \<open>age\<close> is a whole number in the only value the program builds, and
  \<open>createdAt\<close> (a \<open>Date\<close>) is kept as the milliseconds it wraps.
\<close>

record IUser =
  name :: string
  age :: int
  roles :: "Roles list"
  createdAt :: int
  isDeleated :: bool

text \<open>
  The object type of \<open>IRequestObject.params\<close>, with its one optional key \<open>id\<close>. In
  \<open>IRequestObject\<close> the member \<open>method\<close> is written \<open>http_method\<close>.
\<close>

record Params =
  params_id :: "string option"

record IRequestObject =
  http_method :: HTTP_METHODS
  host :: string
  path :: string
  params :: Params
  body :: "IUser option"

section \<open>The world outside the observer\<close>

record 'x world =
  console :: "string list"
  outside :: 'x

definition console_log :: "string \<Rightarrow> 'x world \<Rightarrow> 'x world" where
  "console_log msg w = w\<lparr>console := console w @ [msg]\<rparr>"

section \<open>Callbacks\<close>

text \<open>The four methods of an observer.\<close>

datatype 'e op = Next IRequestObject | Error 'e | Complete | Unsubscribe

text \<open>
  The handlers and the teardown are functions supplied by the caller. The body of one
  is a sequence of steps, each of which acts on the world outside (\<open>Effect\<close>), throws
  (\<open>Throw\<close>), or calls a method of the observer the callback belongs to (\<open>Self\<close>): a
  handler through the object \<open>subscribe\<close> returned, a teardown through the observer its
  producer was given.
\<close>

datatype ('e, 'x) cmd = Effect "'x world \<Rightarrow> 'x world" | Throw | Self "'e op"

text \<open>
  \<open>TNextFunc\<close> and \<open>TErrorFunc\<close>: the body for the given argument, and the status
  object it returns or nothing (\<open>void\<close>, here \<open>None\<close>). \<open>TCompleteFunc\<close> and a teardown
  (\<open>() => void\<close>) return nothing. The error payload is opaque to the program (type \<open>'e\<close>).
\<close>

type_synonym ('e, 'x) TNextFunc = "IRequestObject \<Rightarrow> ('e, 'x) cmd list \<times> HTTP_STATUSES option"

type_synonym ('e, 'x) TErrorFunc = "'e \<Rightarrow> ('e, 'x) cmd list \<times> HTTP_STATUSES option"

type_synonym ('e, 'x) TCompleteFunc = "('e, 'x) cmd list"

type_synonym ('e, 'x) TTeardown = "('e, 'x) cmd list"

text \<open>
  \<open>IHandlers\<close>: the three members \<open>next\<close>, \<open>error\<close>, \<open>complete\<close>. The class tests each
  for truthiness before calling it, so each may be missing at run time.
\<close>

record ('e, 'x) IHandlers =
  h_next :: "('e, 'x) TNextFunc option"
  h_error :: "('e, 'x) TErrorFunc option"
  h_complete :: "('e, 'x) TCompleteFunc option"

section \<open>Class \<open>Observer\<close>\<close>

text \<open>
  The fields \<open>_handlers\<close>, \<open>_isUnsubscribed\<close> and \<open>_unsubscribe\<close> (written
  \<open>p_unsubscribe\<close>; undefined until \<open>Observable.subscribe\<close> assigns it). \<open>reachable\<close> is
  not a field of the class: it records whether the handlers can get at the observer.
  While \<open>subscribe\<close> runs they cannot, because the object they would call is the one
  \<open>subscribe\<close> has yet to return; a handler that tries then throws.
\<close>

record ('e, 'x) Observer =
  handlers :: "('e, 'x) IHandlers"
  isUnsubscribed :: bool
  p_unsubscribe :: "('e, 'x) TTeardown option"
  reachable :: bool

text \<open>
  A log of the callback invocations, each with the observer that made it. The program
  does not read it; the theorems below count in it.
\<close>

datatype 'e call = CallNext IRequestObject | CallError 'e | CallComplete | CallTeardown

text \<open>
  Observers are objects: \<open>heap\<close> maps a reference to the object's fields, and
  \<open>allocated\<close> is the next unused reference.
\<close>

record ('e, 'x) state =
  heap :: "nat \<Rightarrow> ('e, 'x) Observer"
  allocated :: nat
  world :: "'x world"
  calls :: "(nat \<times> 'e call) list"

text \<open>
  A call returns (\<open>Normal\<close>, with its result) or throws (\<open>Thrown\<close>); either way it
  leaves a state behind.
\<close>

datatype ('r, 'e, 'x) outcome =
  Normal (result: 'r) (state_of: "('e, 'x) state")
| Thrown (state_of: "('e, 'x) state")

definition logged :: "nat \<Rightarrow> 'e call \<Rightarrow> ('e, 'x) state \<Rightarrow> ('e, 'x) state" where
  "logged this c s = s\<lparr>calls := calls s @ [(this, c)]\<rparr>"

text \<open>\<open>this._isUnsubscribed = true\<close>\<close>

definition set_unsubscribed :: "nat \<Rightarrow> ('e, 'x) state \<Rightarrow> ('e, 'x) state" where
  "set_unsubscribed this s = s\<lparr>heap := (heap s)(this := (heap s this)\<lparr>isUnsubscribed := True\<rparr>)\<rparr>"

text \<open>\<open>new Observer(handlers)\<close>\<close>

definition Observer_new :: "('e, 'x) IHandlers \<Rightarrow> ('e, 'x) state \<Rightarrow> nat \<times> ('e, 'x) state" where
  "Observer_new hs s =
     (allocated s,
      s\<lparr>heap := (heap s)(allocated s :=
            \<lparr>handlers = hs, isUnsubscribed = False, p_unsubscribe = None, reachable = False\<rparr>),
        allocated := Suc (allocated s)\<rparr>)"

text \<open>
  The methods \<open>next\<close>, \<open>error\<close>, \<open>complete\<close> and \<open>unsubscribe\<close>, and \<open>run\<close>, which
  executes the body of a callback of observer \<open>this\<close> (\<open>ok\<close>: the callback can get at the
  observer). An exception ends the method that was running: nothing in the class
  catches. The methods and the callbacks call each other, so the first argument bounds
  the depth of nested method calls: it is the room left on the call stack, and a call
  with no room left throws, as the engine does.
\<close>

fun run :: "nat \<Rightarrow> nat \<Rightarrow> bool \<Rightarrow> ('e, 'x) cmd list \<Rightarrow> ('e, 'x) state \<Rightarrow> (unit, 'e, 'x) outcome"
  and Observer_next :: "nat \<Rightarrow> nat \<Rightarrow> IRequestObject \<Rightarrow> ('e, 'x) state \<Rightarrow> (unit, 'e, 'x) outcome"
  and Observer_error :: "nat \<Rightarrow> nat \<Rightarrow> 'e \<Rightarrow> ('e, 'x) state \<Rightarrow> (unit, 'e, 'x) outcome"
  and Observer_complete :: "nat \<Rightarrow> nat \<Rightarrow> ('e, 'x) state \<Rightarrow> (unit, 'e, 'x) outcome"
  and Observer_unsubscribe :: "nat \<Rightarrow> nat \<Rightarrow> ('e, 'x) state \<Rightarrow> (unit, 'e, 'x) outcome"
where
  "run d this ok [] s = Normal () s"
| "run d this ok (Effect f # cs) s = run d this ok cs (s\<lparr>world := f (world s)\<rparr>)"
| "run d this ok (Throw # cs) s = Thrown s"
| "run d this ok (Self c # cs) s =
     (if ok
      then (case (case c of
                    Next v \<Rightarrow> Observer_next d this v s
                  | Error e \<Rightarrow> Observer_error d this e s
                  | Complete \<Rightarrow> Observer_complete d this s
                  | Unsubscribe \<Rightarrow> Observer_unsubscribe d this s) of
              Normal u s' \<Rightarrow> run d this ok cs s'
            | Thrown s' \<Rightarrow> Thrown s')
      else Thrown s)"
| "Observer_next 0 this v s = Thrown s"
| "Observer_next (Suc d) this v s =
     (if h_next (handlers (heap s this)) \<noteq> None \<and> \<not> isUnsubscribed (heap s this)
      then run d this (reachable (heap s this)) (fst (the (h_next (handlers (heap s this))) v))
             (logged this (CallNext v) s)
      else Normal () s)"
| "Observer_error 0 this e s = Thrown s"
| "Observer_error (Suc d) this e s =
     (if \<not> isUnsubscribed (heap s this)
      then (case (if h_error (handlers (heap s this)) \<noteq> None
                  then run d this (reachable (heap s this))
                         (fst (the (h_error (handlers (heap s this))) e))
                         (logged this (CallError e) s)
                  else Normal () s) of
              Normal u s1 \<Rightarrow> Observer_unsubscribe d this s1
            | Thrown s1 \<Rightarrow> Thrown s1)
      else Normal () s)"
| "Observer_complete 0 this s = Thrown s"
| "Observer_complete (Suc d) this s =
     (if \<not> isUnsubscribed (heap s this)
      then (case (if h_complete (handlers (heap s this)) \<noteq> None
                  then run d this (reachable (heap s this))
                         (the (h_complete (handlers (heap s this))))
                         (logged this CallComplete s)
                  else Normal () s) of
              Normal u s1 \<Rightarrow> Observer_unsubscribe d this s1
            | Thrown s1 \<Rightarrow> Thrown s1)
      else Normal () s)"
| "Observer_unsubscribe 0 this s = Thrown s"
| "Observer_unsubscribe (Suc d) this s =
     (let s1 = set_unsubscribed this s
      in if p_unsubscribe (heap s1 this) \<noteq> None
         then run d this True (the (p_unsubscribe (heap s1 this))) (logged this CallTeardown s1)
         else Normal () s1)"

section \<open>Class \<open>Observable\<close>\<close>

text \<open>
  \<open>TSubscribeFunc\<close>: the producer is given the observer (and the room on the stack),
  acts on it, and returns the teardown.
\<close>

type_synonym ('e, 'x) TSubscribeFunc =
  "nat \<Rightarrow> nat \<Rightarrow> ('e, 'x) state \<Rightarrow> (('e, 'x) TTeardown, 'e, 'x) outcome"

datatype ('e, 'x) Observable = Observable (p_subscribe: "('e, 'x) TSubscribeFunc")

text \<open>\<open>Array.forEach\<close>: the callback on each element in order, up to the first that throws.\<close>

fun forEach :: "('a \<Rightarrow> ('e, 'x) state \<Rightarrow> (unit, 'e, 'x) outcome) \<Rightarrow> 'a list \<Rightarrow> ('e, 'x) state
    \<Rightarrow> (unit, 'e, 'x) outcome" where
  "forEach f [] s = Normal () s"
| "forEach f (v # vs) s =
     (case f v s of Normal u s' \<Rightarrow> forEach f vs s' | Thrown s' \<Rightarrow> Thrown s')"

text \<open>\<open>Observable.from\<close>\<close>

definition Observable_from :: "IRequestObject list \<Rightarrow> ('e, 'x) Observable" where
  "Observable_from vs =
     Observable (\<lambda>d observer s.
       case forEach (\<lambda>v. Observer_next d observer v) vs s of
         Normal u s1 \<Rightarrow>
           (case Observer_complete d observer s1 of
              Normal u s2 \<Rightarrow> Normal [Effect (console_log ''unsubscribed'')] s2
            | Thrown s2 \<Rightarrow> Thrown s2)
       | Thrown s1 \<Rightarrow> Thrown s1)"

text \<open>
  The object \<open>subscribe\<close> returns: its closure holds the observer and its one method
  forwards to \<open>observer.unsubscribe()\<close>.
\<close>

datatype subscription = Subscription (observer_of: nat)

definition subscription_unsubscribe ::
  "nat \<Rightarrow> subscription \<Rightarrow> ('e, 'x) state \<Rightarrow> (unit, 'e, 'x) outcome" where
  "subscription_unsubscribe d sub s = Observer_unsubscribe d (observer_of sub) s"

text \<open>
  \<open>Observable.subscribe\<close>. When it returns, the caller holds the object through which
  the handlers can call \<open>unsubscribe\<close>.
\<close>

definition Observable_subscribe ::
  "nat \<Rightarrow> ('e, 'x) Observable \<Rightarrow> ('e, 'x) IHandlers \<Rightarrow> ('e, 'x) state
    \<Rightarrow> (subscription, 'e, 'x) outcome" where
  "Observable_subscribe d obl obs s =
     (let (observer, s1) = Observer_new obs s
      in case p_subscribe obl d observer s1 of
           Normal td s2 \<Rightarrow>
             Normal (Subscription observer)
               (s2\<lparr>heap := (heap s2)(observer :=
                  (heap s2 observer)\<lparr>p_unsubscribe := Some td, reachable := True\<rparr>)\<rparr>)
         | Thrown s2 \<Rightarrow> Thrown s2)"

section \<open>The example at the end of the file\<close>

text \<open>\<open>userMock\<close>; \<open>now\<close> is what \<open>new Date()\<close> gave.\<close>

definition userMock :: "int \<Rightarrow> IUser" where
  "userMock now =
     \<lparr>name = ''User Name'', age = 26, roles = [USER, ADMIN], createdAt = now,
      isDeleated = False\<rparr>"

definition requestsMock :: "int \<Rightarrow> IRequestObject list" where
  "requestsMock now =
     [\<lparr>http_method = HTTP_POST_METHOD, host = ''service.example'', path = ''user'',
       params = \<lparr>params_id = None\<rparr>, body = Some (userMock now)\<rparr>,
      \<lparr>http_method = HTTP_GET_METHOD, host = ''service.example'', path = ''user'',
       params = \<lparr>params_id = Some ''3f5h67s4s''\<rparr>, body = None\<rparr>]"

definition handleRequest :: "('e, 'x) TNextFunc" where
  "handleRequest request = ([], Some HTTP_STATUS_OK)"

definition handleError :: "('e, 'x) TErrorFunc" where
  "handleError error = ([], Some HTTP_STATUS_INTERNAL_SERVER_ERROR)"

definition handleComplete :: "('e, 'x) TCompleteFunc" where
  "handleComplete = [Effect (console_log ''complete'')]"

definition exampleHandlers :: "('e, 'x) IHandlers" where
  "exampleHandlers =
     \<lparr>h_next = Some handleRequest, h_error = Some handleError, h_complete = Some handleComplete\<rparr>"

text \<open>
  \<open>const subscription = requests$.subscribe({...})\<close>, from the state \<open>s\<close> the module
  starts in.
\<close>

definition example_subscribe :: "nat \<Rightarrow> int \<Rightarrow> ('e, 'x) state \<Rightarrow> (subscription, 'e, 'x) outcome" where
  "example_subscribe d now s =
     Observable_subscribe d (Observable_from (requestsMock now)) exampleHandlers s"

text \<open>The whole module: the subscription, then \<open>subscription.unsubscribe()\<close>.\<close>

definition example_main :: "nat \<Rightarrow> int \<Rightarrow> ('e, 'x) state \<Rightarrow> (unit, 'e, 'x) outcome" where
  "example_main d now s =
     (case example_subscribe d now s of
        Normal sub s1 \<Rightarrow> subscription_unsubscribe d sub s1
      | Thrown s1 \<Rightarrow> Thrown s1)"

text \<open>A state with nothing allocated, nothing printed and nothing called.\<close>

definition noHandlers :: "('e, 'x) IHandlers" where
  "noHandlers = \<lparr>h_next = None, h_error = None, h_complete = None\<rparr>"

definition init_state :: "'x \<Rightarrow> ('e, 'x) state" where
  "init_state x =
     \<lparr>heap = (\<lambda>_. \<lparr>handlers = noHandlers, isUnsubscribed = False, p_unsubscribe = None,
                   reachable = False\<rparr>),
      allocated = 0,
      world = \<lparr>console = [], outside = x\<rparr>,
      calls = []\<rparr>"

section \<open>Sequences of calls\<close>

fun apply_op :: "nat \<Rightarrow> nat \<Rightarrow> 'e op \<Rightarrow> ('e, 'x) state \<Rightarrow> (unit, 'e, 'x) outcome" where
  "apply_op d this (Next v) s = Observer_next d this v s"
| "apply_op d this (Error e) s = Observer_error d this e s"
| "apply_op d this Complete s = Observer_complete d this s"
| "apply_op d this Unsubscribe s = Observer_unsubscribe d this s"

text \<open>
  A sequence of calls, each on some observer, made in order by a caller that goes on
  to the next call whether the last one returned or threw.
\<close>

definition run_calls :: "nat \<Rightarrow> (nat \<times> 'e op) list \<Rightarrow> ('e, 'x) state \<Rightarrow> ('e, 'x) state" where
  "run_calls d cs s = foldl (\<lambda>s c. state_of (apply_op d (fst c) (snd c) s)) s cs"

text \<open>
  How often observer \<open>this\<close> has made the call \<open>c\<close> (\<open>CallTeardown\<close>: how often its
  teardown has run).
\<close>

definition call_count :: "nat \<Rightarrow> 'e call \<Rightarrow> ('e, 'x) state \<Rightarrow> nat" where
  "call_count this c s = length (filter (\<lambda>x. x = (this, c)) (calls s))"

text \<open>
  A synchronous producer: it makes the calls \<open>ops\<close> on the observer it is given, in
  order, before it returns, and returns the teardown \<open>td\<close>. It does not catch, so a call
  that throws ends it. \<open>Observable.from\<close> is one (lemma \<open>from_scripted\<close>).
\<close>

definition scripted :: "'e op list \<Rightarrow> ('e, 'x) TTeardown \<Rightarrow> ('e, 'x) Observable" where
  "scripted ops td =
     Observable (\<lambda>d observer s.
       case forEach (apply_op d observer) ops s of
         Normal u s' \<Rightarrow> Normal td s'
       | Thrown s' \<Rightarrow> Thrown s')"

section \<open>Callbacks that only act on the world\<close>

text \<open>A body that neither throws nor calls the observer, and what it does to the world.\<close>

fun effects_only :: "('e, 'x) cmd list \<Rightarrow> bool" where
  "effects_only [] = True"
| "effects_only (Effect f # cs) = effects_only cs"
| "effects_only (c # cs) = False"

fun effect_of :: "('e, 'x) cmd list \<Rightarrow> 'x world \<Rightarrow> 'x world" where
  "effect_of [] w = w"
| "effect_of (Effect f # cs) w = effect_of cs (f w)"
| "effect_of (c # cs) w = w"

text \<open>A body that makes no call on the observer (it may throw).\<close>

fun no_self :: "('e, 'x) cmd list \<Rightarrow> bool" where
  "no_self [] = True"
| "no_self (Self c # cs) = False"
| "no_self (c # cs) = no_self cs"

text \<open>
  \<open>frame this s s'\<close>: from \<open>s\<close> to \<open>s'\<close> nothing was allocated, no handlers or teardown
  changed, no flag was cleared, and no observer other than \<open>this\<close> was written.
\<close>

definition frame :: "nat \<Rightarrow> ('e, 'x) state \<Rightarrow> ('e, 'x) state \<Rightarrow> bool" where
  "frame this s s' \<longleftrightarrow>
     allocated s' = allocated s \<and>
     (\<forall>a. handlers (heap s' a) = handlers (heap s a) \<and>
          p_unsubscribe (heap s' a) = p_unsubscribe (heap s a) \<and>
          reachable (heap s' a) = reachable (heap s a) \<and>
          (isUnsubscribed (heap s a) \<longrightarrow> isUnsubscribed (heap s' a)) \<and>
          (a \<noteq> this \<longrightarrow> heap s' a = heap s a))"

text \<open>
  What delivering the whole of \<open>vs\<close> and then completing means for the handlers \<open>h\<close> of
  observer \<open>a\<close>: the calls made, and the effect on the world.
\<close>

definition delivered_calls :: "nat \<Rightarrow> ('e, 'x) IHandlers \<Rightarrow> IRequestObject list \<Rightarrow> (nat \<times> 'e call) list" where
  "delivered_calls a h vs =
     (if h_next h \<noteq> None then map (\<lambda>v. (a, CallNext v)) vs else [])
     @ (if h_complete h \<noteq> None then [(a, CallComplete)] else [])"

definition delivered_world :: "('e, 'x) IHandlers \<Rightarrow> IRequestObject list \<Rightarrow> 'x world \<Rightarrow> 'x world" where
  "delivered_world h vs w =
     (let w1 = foldl (\<lambda>w v. case h_next h of None \<Rightarrow> w | Some f \<Rightarrow> effect_of (fst (f v)) w) w vs
      in case h_complete h of None \<Rightarrow> w1 | Some g \<Rightarrow> effect_of g w1)"

section \<open>Concrete states\<close>

text \<open>
  \<open>idle_with h\<close>: observer \<open>0\<close>, with handlers \<open>h\<close>, is subscribed to a producer that
  has emitted nothing yet, so it is live, has its teardown attached, and its handlers
  can call \<open>unsubscribe\<close>.
\<close>

definition idle_with :: "(unit, unit) IHandlers \<Rightarrow> (unit, unit) state" where
  "idle_with h =
     state_of (Observable_subscribe 1 (scripted [] [Effect (console_log ''unsubscribed'')]) h
                 (init_state ()))"

definition idle :: "(unit, unit) state" where
  "idle = idle_with exampleHandlers"

definition idle_bare :: "(unit, unit) state" where
  "idle_bare = idle_with noHandlers"

text \<open>Handlers that throw, and handlers that call \<open>unsubscribe\<close>.\<close>

definition throwingHandlers :: "(unit, unit) IHandlers" where
  "throwingHandlers =
     \<lparr>h_next = Some handleRequest, h_error = Some (\<lambda>e. ([Throw], None)), h_complete = Some [Throw]\<rparr>"

definition reentrantHandlers :: "(unit, unit) IHandlers" where
  "reentrantHandlers =
     \<lparr>h_next = Some handleRequest, h_error = Some (\<lambda>e. ([Self Unsubscribe], None)),
      h_complete = Some [Self Unsubscribe]\<rparr>"

text \<open>An observer whose teardown calls \<open>unsubscribe\<close> on it.\<close>

definition idle_recursive :: "(unit, unit) state" where
  "idle_recursive =
     state_of (Observable_subscribe 1 (scripted [] [Self Unsubscribe]) exampleHandlers
                 (init_state ()))"

section \<open>What a call can change\<close>

lemma frame_refl [simp]: "frame this s s"
  by (simp add: frame_def)

lemma frame_trans: "frame this s s1 \<Longrightarrow> frame this s1 s2 \<Longrightarrow> frame this s s2"
  by (simp add: frame_def)

lemma frame_steps [simp]:
  "frame this s (logged this c s)"
  "frame this s (set_unsubscribed this s)"
  "frame this s (s\<lparr>world := w\<rparr>)"
  by (simp_all add: frame_def logged_def set_unsubscribed_def)

lemma frame_all:
  "frame this s (state_of (run d this ok cs s))"
  "frame this s (state_of (Observer_next d this v s))"
  "frame this s (state_of (Observer_error d this e s))"
  "frame this s (state_of (Observer_complete d this s))"
  "frame this s (state_of (Observer_unsubscribe d this s))"
proof (induction d this ok cs s and d this v s and d this e s and d this s and d this s
    rule: run_Observer_next_Observer_error_Observer_complete_Observer_unsubscribe.induct)
  case (1 d this ok s)
  show ?case by simp
next
  case (2 d this ok f cs s)
  have "frame this s (s\<lparr>world := f (world s)\<rparr>)" by simp
  from frame_trans [OF this 2] show ?case by simp
next
  case (3 d this ok cs s)
  show ?case by simp
next
  case (4 d this ok c cs s)
  show ?case
  proof (cases ok)
    case False
    then show ?thesis by simp
  next
    case True
    let ?r = "case c of Next v \<Rightarrow> Observer_next d this v s
                  | Error e \<Rightarrow> Observer_error d this e s
                  | Complete \<Rightarrow> Observer_complete d this s
                  | Unsubscribe \<Rightarrow> Observer_unsubscribe d this s"
    have a: "frame this s (state_of ?r)"
      using 4(1-4) True by (cases c) simp_all
    show ?thesis
    proof (cases ?r)
      case (Normal u s')
      from 4(5) [OF True Normal] a Normal show ?thesis
        using True by (auto intro: frame_trans)
    next
      case (Thrown s')
      with a show ?thesis using True by simp
    qed
  qed
next
  case (5 this v s)
  show ?case by simp
next
  case (6 d this v s)
  then show ?case by (auto intro: frame_trans [OF frame_steps(1)])
next
  case (7 this e s)
  show ?case by simp
next
  case (8 d this e s)
  show ?case
  proof (cases "isUnsubscribed (heap s this)")
    case True
    then show ?thesis by simp
  next
    case False
    let ?r = "if h_error (handlers (heap s this)) \<noteq> None
                  then run d this (reachable (heap s this))
                         (fst (the (h_error (handlers (heap s this))) e))
                         (logged this (CallError e) s)
                  else Normal () s"
    have a: "frame this s (state_of ?r)"
      using 8(1) False by (auto intro: frame_trans [OF frame_steps(1)])
    show ?thesis
    proof (cases ?r)
      case (Normal u s1)
      from 8(2) [OF False Normal] a Normal False show ?thesis
        by (auto intro: frame_trans)
    next
      case (Thrown s1)
      with a False show ?thesis by simp
    qed
  qed
next
  case (9 this s)
  show ?case by simp
next
  case (10 d this s)
  show ?case
  proof (cases "isUnsubscribed (heap s this)")
    case True
    then show ?thesis by simp
  next
    case False
    let ?r = "if h_complete (handlers (heap s this)) \<noteq> None
                  then run d this (reachable (heap s this))
                         (the (h_complete (handlers (heap s this))))
                         (logged this CallComplete s)
                  else Normal () s"
    have a: "frame this s (state_of ?r)"
      using 10(1) False by (auto intro: frame_trans [OF frame_steps(1)])
    show ?thesis
    proof (cases ?r)
      case (Normal u s1)
      from 10(2) [OF False Normal] a Normal False show ?thesis
        by (auto intro: frame_trans)
    next
      case (Thrown s1)
      with a False show ?thesis by simp
    qed
  qed
next
  case (11 this s)
  show ?case by simp
next
  case (12 d this s)
  have b: "frame this s (logged this CallTeardown (set_unsubscribed this s))"
    by (rule frame_trans [OF frame_steps(2) frame_steps(1)])
  show ?case using 12 [OF refl] b
    by (auto simp: Let_def intro: frame_trans)
qed

lemma frame_apply_op: "frame this s (state_of (apply_op d this c s))"
  by (cases c) (simp_all add: frame_all)

lemma frame_flag: "frame this s s' \<Longrightarrow> isUnsubscribed (heap s a) \<Longrightarrow> isUnsubscribed (heap s' a)"
  by (simp add: frame_def)

lemma frame_fields:
  "frame this s s' \<Longrightarrow> handlers (heap s' a) = handlers (heap s a)"
  "frame this s s' \<Longrightarrow> p_unsubscribe (heap s' a) = p_unsubscribe (heap s a)"
  "frame this s s' \<Longrightarrow> reachable (heap s' a) = reachable (heap s a)"
  "frame this s s' \<Longrightarrow> allocated s' = allocated s"
  by (simp_all add: frame_def)

lemma flag_run_calls:
  "isUnsubscribed (heap s a) \<Longrightarrow> isUnsubscribed (heap (run_calls d cs s) a)"
  unfolding run_calls_def
proof (induction cs arbitrary: s)
  case Nil
  then show ?case by simp
next
  case (Cons c cs)
  have "isUnsubscribed (heap (state_of (apply_op d (fst c) (snd c) s)) a)"
    using frame_flag [OF frame_apply_op Cons.prems] .
  from Cons.IH [OF this] show ?case by simp
qed

section \<open>Running a callback\<close>

lemma run_effects_only:
  "effects_only cs \<Longrightarrow> run d this ok cs s = Normal () (s\<lparr>world := effect_of cs (world s)\<rparr>)"
  by (induction cs arbitrary: s rule: effects_only.induct) simp_all

text \<open>A callback that cannot get at the observer either throws or only acts on the world.\<close>

lemma run_unreachable:
  "run d this False cs s = Normal u s' \<Longrightarrow> s' = s\<lparr>world := effect_of cs (world s)\<rparr>"
proof (induction cs arbitrary: s)
  case Nil
  then show ?case by simp
next
  case (Cons c cs)
  show ?case
  proof (cases c)
    case (Effect f)
    with Cons.prems have "run d this False cs (s\<lparr>world := f (world s)\<rparr>) = Normal u s'"
      by simp
    from Cons.IH [OF this] show ?thesis using Effect by simp
  next
    case Throw
    with Cons.prems show ?thesis by simp
  next
    case (Self x)
    with Cons.prems show ?thesis by simp
  qed
qed

lemma run_no_self:
  "\<not> ok \<or> no_self cs \<Longrightarrow>
   heap (state_of (run d this ok cs s)) = heap s \<and>
   calls (state_of (run d this ok cs s)) = calls s \<and>
   allocated (state_of (run d this ok cs s)) = allocated s"
proof (induction cs arbitrary: s)
  case Nil
  then show ?case by simp
next
  case (Cons c cs)
  then show ?case by (cases c) auto
qed

section \<open>The methods, case by case\<close>

lemma next_inert: "isUnsubscribed (heap s this) \<Longrightarrow> Observer_next (Suc d) this v s = Normal () s"
  by simp

lemma complete_inert: "isUnsubscribed (heap s this) \<Longrightarrow> Observer_complete (Suc d) this s = Normal () s"
  by simp

lemma unsubscribe_none:
  "p_unsubscribe (heap s this) = None \<Longrightarrow>
   Observer_unsubscribe (Suc d) this s = Normal () (set_unsubscribed this s)"
  by (simp add: Let_def set_unsubscribed_def)

lemma unsubscribe_plain:
  "p_unsubscribe (heap s this) = Some td \<Longrightarrow> effects_only td \<Longrightarrow>
   Observer_unsubscribe (Suc d) this s =
     Normal () (set_unsubscribed this s
       \<lparr>world := effect_of td (world s), calls := calls s @ [(this, CallTeardown)]\<rparr>)"
  by (simp add: Let_def set_unsubscribed_def logged_def run_effects_only)

lemma set_unsubscribed_simps [simp]:
  "isUnsubscribed (heap (set_unsubscribed this s) this)"
  "handlers (heap (set_unsubscribed this s) a) = handlers (heap s a)"
  "p_unsubscribe (heap (set_unsubscribed this s) a) = p_unsubscribe (heap s a)"
  "reachable (heap (set_unsubscribed this s) a) = reachable (heap s a)"
  "world (set_unsubscribed this s) = world s"
  "calls (set_unsubscribed this s) = calls s"
  "allocated (set_unsubscribed this s) = allocated s"
  "set_unsubscribed this (set_unsubscribed this s) = set_unsubscribed this s"
  by (simp_all add: set_unsubscribed_def)

lemma logged_simps [simp]:
  "heap (logged this c s) = heap s"
  "world (logged this c s) = world s"
  "calls (logged this c s) = calls s @ [(this, c)]"
  "allocated (logged this c s) = allocated s"
  by (simp_all add: logged_def)

lemma flag_after_unsubscribe:
  "isUnsubscribed (heap (state_of (Observer_unsubscribe (Suc d) this s)) this)"
proof -
  have "frame this (set_unsubscribed this s) (state_of (Observer_unsubscribe (Suc d) this s))"
    using frame_all(1) [of this "logged this CallTeardown (set_unsubscribed this s)" d True]
    by (auto simp: Let_def frame_def)
  from frame_flag [OF this] show ?thesis by simp
qed

text \<open>A terminal call that returns leaves the flag set.\<close>

lemma flag_after_complete:
  assumes "Observer_complete d this s = Normal u s'"
  shows "isUnsubscribed (heap s' this)"
proof (cases d)
  case 0
  with assms show ?thesis by simp
next
  case (Suc d1)
  show ?thesis
  proof (cases "isUnsubscribed (heap s this)")
    case True
    with assms Suc show ?thesis by simp
  next
    case False
    from assms Suc False obtain s1 where u: "Observer_unsubscribe d1 this s1 = Normal u s'"
      by (auto split: outcome.splits if_splits)
    then obtain d2 where "d1 = Suc d2" by (cases d1) auto
    with u flag_after_unsubscribe [of d2 this s1] show ?thesis by simp
  qed
qed

lemma flag_after_error:
  assumes "Observer_error d this e s = Normal u s'"
  shows "isUnsubscribed (heap s' this)"
proof (cases d)
  case 0
  with assms show ?thesis by simp
next
  case (Suc d1)
  show ?thesis
  proof (cases "isUnsubscribed (heap s this)")
    case True
    with assms Suc show ?thesis by simp
  next
    case False
    from assms Suc False obtain s1 where u: "Observer_unsubscribe d1 this s1 = Normal u s'"
      by (auto split: outcome.splits if_splits)
    then obtain d2 where "d1 = Suc d2" by (cases d1) auto
    with u flag_after_unsubscribe [of d2 this s1] show ?thesis by simp
  qed
qed

lemma run_calls_Cons:
  "run_calls d (c # cs) s = run_calls d cs (state_of (apply_op d (fst c) (snd c) s))"
  by (simp add: run_calls_def)

lemma unsubscribe_replicate:
  assumes "effects_only td"
  shows "p_unsubscribe (heap s this) = Some td \<Longrightarrow>
         calls (run_calls (Suc d) (replicate n (this, Unsubscribe)) s)
           = calls s @ replicate n (this, CallTeardown) \<and>
         world (run_calls (Suc d) (replicate n (this, Unsubscribe)) s)
           = (effect_of td ^^ n) (world s) \<and>
         heap (run_calls (Suc d) (replicate n (this, Unsubscribe)) s)
           = (if n = 0 then heap s else heap (set_unsubscribed this s))"
proof (induction n arbitrary: s)
  case 0
  show ?case by (simp add: run_calls_def)
next
  case (Suc n)
  let ?s1 = "set_unsubscribed this s
       \<lparr>world := effect_of td (world s), calls := calls s @ [(this, CallTeardown)]\<rparr>"
  have st: "state_of (Observer_unsubscribe (Suc d) this s) = ?s1"
    using unsubscribe_plain [OF Suc.prems assms] by simp
  have td: "p_unsubscribe (heap ?s1 this) = Some td"
    using Suc.prems by simp
  have h: "heap (set_unsubscribed this ?s1) = heap (set_unsubscribed this s)"
    by (simp add: set_unsubscribed_def)
  have h1: "heap ?s1 = heap (set_unsubscribed this s)"
    by simp
  have step: "run_calls (Suc d) (replicate (Suc n) (this, Unsubscribe)) s
      = run_calls (Suc d) (replicate n (this, Unsubscribe)) ?s1"
    by (simp only: replicate_Suc run_calls_Cons fst_conv snd_conv apply_op.simps st)
  show ?case unfolding step using Suc.IH [OF td]
    by (simp add: h h1 replicate_app_Cons_same funpow_swap1)
qed

lemma unsubscribe_recursive:
  "p_unsubscribe (heap s this) = Some (Self Unsubscribe # cs) \<Longrightarrow>
   \<exists>s'. Observer_unsubscribe d this s = Thrown s'"
proof (induction d arbitrary: s)
  case 0
  show ?case by simp
next
  case (Suc d)
  let ?s1 = "logged this CallTeardown (set_unsubscribed this s)"
  have "p_unsubscribe (heap ?s1 this) = Some (Self Unsubscribe # cs)"
    using Suc.prems by simp
  from Suc.IH [OF this] obtain s' where "Observer_unsubscribe d this ?s1 = Thrown s'" ..
  with Suc.prems show ?case by (simp add: Let_def)
qed

section \<open>The concrete states\<close>

lemma init_state_facts:
  "allocated (init_state x) = 0"
  "calls (init_state x) = []"
  "world (init_state x) = \<lparr>console = [], outside = x\<rparr>"
  by (simp_all add: init_state_def)

lemma idle_with_facts:
  "heap (idle_with h) 0 =
     \<lparr>handlers = h, isUnsubscribed = False,
      p_unsubscribe = Some [Effect (console_log ''unsubscribed'')], reachable = True\<rparr>"
  "calls (idle_with h) = []"
  "world (idle_with h) = \<lparr>console = [], outside = ()\<rparr>"
  by (simp_all add: idle_with_def Observable_subscribe_def scripted_def Observer_new_def
        init_state_def)

lemma idle_recursive_facts:
  "heap idle_recursive 0 =
     \<lparr>handlers = exampleHandlers, isUnsubscribed = False,
      p_unsubscribe = Some [Self Unsubscribe], reachable = True\<rparr>"
  "calls idle_recursive = []"
  by (simp_all add: idle_recursive_def Observable_subscribe_def scripted_def Observer_new_def
        init_state_def)

section \<open>What \<open>Observable.from\<close> does when subscribed\<close>

lemma forEach_append:
  "forEach f (xs @ ys) s =
     (case forEach f xs s of Normal u s1 \<Rightarrow> forEach f ys s1 | Thrown s1 \<Rightarrow> Thrown s1)"
  by (induction xs arbitrary: s) (simp_all split: outcome.splits)

lemma forEach_map: "forEach f (map g xs) s = forEach (\<lambda>x. f (g x)) xs s"
  by (induction xs arbitrary: s) (simp_all split: outcome.splits)

lemma forEach_take:
  "forEach f xs s = Normal u s' \<Longrightarrow> \<exists>s1. forEach f (take k xs) s = Normal () s1"
proof (induction xs arbitrary: s k)
  case Nil
  then show ?case by simp
next
  case (Cons x xs)
  show ?case
  proof (cases k)
    case 0
    then show ?thesis by simp
  next
    case (Suc k1)
    from Cons.prems obtain s0 where a: "f x s = Normal () s0" and b: "forEach f xs s0 = Normal u s'"
      by (auto split: outcome.splits)
    from Cons.IH [OF b, of k1] a Suc show ?thesis by simp
  qed
qed

lemma apply_op_Next: "apply_op d this (Next v) = Observer_next d this v"
  by (rule ext) simp

lemma forEach_from:
  "forEach (apply_op d a) (map Next vs @ [Complete]) s =
     (case forEach (\<lambda>v. Observer_next d a v) vs s of
        Normal u s1 \<Rightarrow> Observer_complete d a s1
      | Thrown s1 \<Rightarrow> Thrown s1)"
  by (simp add: forEach_append forEach_map apply_op_Next split: outcome.splits)

lemma from_scripted:
  "Observable_from vs = scripted (map Next vs @ [Complete]) [Effect (console_log ''unsubscribed'')]"
  by (simp add: Observable_from_def scripted_def forEach_from fun_eq_iff split: outcome.splits)

text \<open>
  On an observer its handlers cannot get at, a run of \<open>next\<close> calls that returns has
  made one handler call for each value and has only changed the world.
\<close>

lemma forEach_next:
  assumes "\<not> reachable (heap s a)" and "\<not> isUnsubscribed (heap s a)"
    and "forEach (\<lambda>v. Observer_next d a v) vs s = Normal u s1"
  shows "s1 = s\<lparr>world := foldl (\<lambda>w v. case h_next (handlers (heap s a)) of
                                          None \<Rightarrow> w
                                        | Some f \<Rightarrow> effect_of (fst (f v)) w) (world s) vs,
                 calls := calls s @ (if h_next (handlers (heap s a)) \<noteq> None
                                     then map (\<lambda>v. (a, CallNext v)) vs else [])\<rparr>"
  using assms
proof (induction vs arbitrary: s)
  case Nil
  then show ?case by simp
next
  case (Cons v vs)
  from Cons.prems(3) obtain s0 where a: "Observer_next d a v s = Normal () s0"
    and b: "forEach (\<lambda>v. Observer_next d a v) vs s0 = Normal u s1"
    by (auto split: outcome.splits)
  from a obtain d1 where d: "d = Suc d1" by (cases d) auto
  have s0: "s0 = (case h_next (handlers (heap s a)) of
                    None \<Rightarrow> s
                  | Some f \<Rightarrow> s\<lparr>world := effect_of (fst (f v)) (world s),
                                calls := calls s @ [(a, CallNext v)]\<rparr>)"
  proof (cases "h_next (handlers (heap s a))")
    case None
    with a d show ?thesis by simp
  next
    case (Some f)
    with a d Cons.prems(1,2)
    have "run d1 a False (fst (f v)) (logged a (CallNext v) s) = Normal () s0" by simp
    from run_unreachable [OF this] Some show ?thesis by (simp add: logged_def)
  qed
  then have h: "heap s0 = heap s"
    by (simp split: option.splits)
  from Cons.IH [of s0, OF _ _ b] Cons.prems(1,2) h
  have "s1 = s0\<lparr>world := foldl (\<lambda>w v. case h_next (handlers (heap s a)) of
                                          None \<Rightarrow> w
                                        | Some f \<Rightarrow> effect_of (fst (f v)) w) (world s0) vs,
                 calls := calls s0 @ (if h_next (handlers (heap s a)) \<noteq> None
                                      then map (\<lambda>v. (a, CallNext v)) vs else [])\<rparr>"
    by simp
  with s0 show ?case by (simp split: option.splits)
qed

lemma forEach_next_total:
  assumes "\<forall>v\<in>set vs. case h_next (handlers (heap s a)) of
                         None \<Rightarrow> True
                       | Some f \<Rightarrow> effects_only (fst (f v))"
  shows "\<exists>s1. forEach (\<lambda>v. Observer_next (Suc d) a v) vs s = Normal () s1 \<and> heap s1 = heap s"
  using assms
proof (induction vs arbitrary: s)
  case Nil
  then show ?case by simp
next
  case (Cons v vs)
  have "\<exists>s0. Observer_next (Suc d) a v s = Normal () s0 \<and> heap s0 = heap s"
    using Cons.prems by (auto simp: run_effects_only split: option.splits)
  then obtain s0 where a: "Observer_next (Suc d) a v s = Normal () s0" and h: "heap s0 = heap s"
    by blast
  from Cons.prems h have "\<forall>v\<in>set vs. case h_next (handlers (heap s0 a)) of
                         None \<Rightarrow> True
                       | Some f \<Rightarrow> effects_only (fst (f v))"
    by simp
  from Cons.IH [OF this] a h show ?case
    by (simp del: Observer_next.simps)
qed

lemma complete_fresh:
  assumes "\<not> reachable (heap s a)" and "\<not> isUnsubscribed (heap s a)"
    and "p_unsubscribe (heap s a) = None"
    and "Observer_complete d a s = Normal u s2"
  shows "s2 = set_unsubscribed a
                (case h_complete (handlers (heap s a)) of
                   None \<Rightarrow> s
                 | Some g \<Rightarrow> s\<lparr>world := effect_of g (world s),
                               calls := calls s @ [(a, CallComplete)]\<rparr>)"
proof -
  from assms(4) obtain d1 where d: "d = Suc d1" by (cases d) auto
  let ?r = "if h_complete (handlers (heap s a)) \<noteq> None
            then run d1 a (reachable (heap s a)) (the (h_complete (handlers (heap s a))))
                   (logged a CallComplete s)
            else Normal () s"
  from assms(2,4) d obtain s1 where r: "?r = Normal () s1"
    and un: "Observer_unsubscribe d1 a s1 = Normal u s2"
    by (auto split: outcome.splits if_splits)
  have s1: "s1 = (case h_complete (handlers (heap s a)) of
                   None \<Rightarrow> s
                 | Some g \<Rightarrow> s\<lparr>world := effect_of g (world s),
                               calls := calls s @ [(a, CallComplete)]\<rparr>)"
  proof (cases "h_complete (handlers (heap s a))")
    case None
    with r show ?thesis by simp
  next
    case (Some g)
    with r assms(1) have "run d1 a False g (logged a CallComplete s) = Normal () s1" by simp
    from run_unreachable [OF this] Some show ?thesis by (simp add: logged_def)
  qed
  then have "p_unsubscribe (heap s1 a) = None"
    using assms(3) by (simp split: option.splits)
  moreover from un obtain d2 where "d1 = Suc d2" by (cases d1) auto
  ultimately have "s2 = set_unsubscribed a s1"
    using un unsubscribe_none [of s1 a d2] by simp
  with s1 show ?thesis by simp
qed

lemma subscribe_from:
  assumes "Observable_subscribe d (Observable_from vs) h s = Normal sub s'"
  shows "observer_of sub = allocated s"
    and "allocated s' = Suc (allocated s)"
    and "calls s' = calls s @ delivered_calls (allocated s) h vs"
    and "world s' = delivered_world h vs (world s)"
    and "heap s' = (heap s)(allocated s :=
           \<lparr>handlers = h, isUnsubscribed = True,
            p_unsubscribe = Some [Effect (console_log ''unsubscribed'')], reachable = True\<rparr>)"
proof -
  let ?a = "allocated s"
  let ?s0 = "snd (Observer_new h s)"
  have s0: "heap ?s0 ?a = \<lparr>handlers = h, isUnsubscribed = False, p_unsubscribe = None,
                            reachable = False\<rparr>"
    "heap ?s0 = (heap s)(?a := \<lparr>handlers = h, isUnsubscribed = False, p_unsubscribe = None,
                                 reachable = False\<rparr>)"
    "allocated ?s0 = Suc ?a" "calls ?s0 = calls s" "world ?s0 = world s"
    by (simp_all add: Observer_new_def)
  from assms obtain s1 s2 where
    f: "forEach (\<lambda>v. Observer_next d ?a v) vs ?s0 = Normal () s1"
    and c: "Observer_complete d ?a s1 = Normal () s2"
    and eq: "sub = Subscription ?a"
      "s' = s2\<lparr>heap := (heap s2)(?a := (heap s2 ?a)
               \<lparr>p_unsubscribe := Some [Effect (console_log ''unsubscribed'')],
                reachable := True\<rparr>)\<rparr>"
    by (auto simp: Observable_subscribe_def Observable_from_def Observer_new_def
          split: outcome.splits)
  have s1: "s1 = ?s0\<lparr>world := foldl (\<lambda>w v. case h_next h of
                                          None \<Rightarrow> w
                                        | Some f \<Rightarrow> effect_of (fst (f v)) w) (world s) vs,
                 calls := calls s @ (if h_next h \<noteq> None
                                     then map (\<lambda>v. (?a, CallNext v)) vs else [])\<rparr>"
    using forEach_next [OF _ _ f] s0 by simp
  have pre: "\<not> reachable (heap s1 ?a)" "\<not> isUnsubscribed (heap s1 ?a)"
    "p_unsubscribe (heap s1 ?a) = None" "handlers (heap s1 ?a) = h"
    by (simp_all add: s1 s0)
  note s2 = complete_fresh [OF pre(1-3) c]
  show "observer_of sub = allocated s" by (simp add: eq)
  show "allocated s' = Suc (allocated s)"
    by (simp add: eq s2 pre(4) s1 s0 split: option.splits)
  show "calls s' = calls s @ delivered_calls (allocated s) h vs"
    by (simp add: eq s2 pre(4) s1 s0 delivered_calls_def split: option.splits)
  show "world s' = delivered_world h vs (world s)"
    by (simp add: eq s2 pre(4) s1 s0 delivered_world_def split: option.splits)
  show "heap s' = (heap s)(allocated s :=
           \<lparr>handlers = h, isUnsubscribed = True,
            p_unsubscribe = Some [Effect (console_log ''unsubscribed'')], reachable = True\<rparr>)"
    by (simp add: eq s2 pre(4) s1 s0 set_unsubscribed_def split: option.splits)
qed

text \<open>With handlers that only act on the world, and room for two nested calls, it returns.\<close>

lemma subscribe_from_total:
  assumes "\<forall>v\<in>set vs. case h_next h of None \<Rightarrow> True | Some f \<Rightarrow> effects_only (fst (f v))"
    and "case h_complete h of None \<Rightarrow> True | Some g \<Rightarrow> effects_only g"
  shows "\<exists>sub s'. Observable_subscribe (Suc (Suc d)) (Observable_from vs) h s = Normal sub s'"
proof -
  let ?a = "allocated s"
  let ?s0 = "snd (Observer_new h s)"
  have s0: "heap ?s0 ?a = \<lparr>handlers = h, isUnsubscribed = False, p_unsubscribe = None,
                            reachable = False\<rparr>"
    by (simp add: Observer_new_def)
  from assms(1) s0
  have "\<forall>v\<in>set vs. case h_next (handlers (heap ?s0 ?a)) of
                      None \<Rightarrow> True
                    | Some f \<Rightarrow> effects_only (fst (f v))"
    by simp
  from forEach_next_total [OF this, of "Suc d"] obtain s1
    where f: "forEach (\<lambda>v. Observer_next (Suc (Suc d)) ?a v) vs ?s0 = Normal () s1"
      and h: "heap s1 = heap ?s0"
    by blast
  have "\<exists>s2. Observer_complete (Suc (Suc d)) ?a s1 = Normal () s2"
    using assms(2) h s0
    by (auto simp: run_effects_only Let_def split: option.splits)
  then obtain s2 where "Observer_complete (Suc (Suc d)) ?a s1 = Normal () s2" ..
  with f show ?thesis
    by (simp add: Observable_subscribe_def Observable_from_def Observer_new_def
          del: Observer_next.simps Observer_complete.simps)
qed

section \<open>A producer's calls on a new observer\<close>

lemma frame_forEach: "frame a s (state_of (forEach (apply_op d a) ops s))"
proof (induction ops arbitrary: s)
  case Nil
  show ?case by simp
next
  case (Cons c ops)
  show ?case
  proof (cases "apply_op d a c s")
    case (Normal u s0)
    with frame_apply_op [of a s d c] have "frame a s s0" by simp
    from frame_trans [OF this Cons [of s0]] Normal show ?thesis by simp
  next
    case (Thrown s0)
    with frame_apply_op [of a s d c] show ?thesis by simp
  qed
qed

lemma unsubscribe_fresh_calls:
  "p_unsubscribe (heap s a) = None \<Longrightarrow> calls (state_of (Observer_unsubscribe d a s)) = calls s"
  by (cases d) (simp_all add: Let_def)

text \<open>
  While no teardown is attached and the handlers cannot get at the observer, no call
  on it runs a teardown.
\<close>

lemma apply_op_fresh_count:
  assumes "\<not> reachable (heap s a)" and "p_unsubscribe (heap s a) = None"
  shows "call_count a CallTeardown (state_of (apply_op d a c s)) = call_count a CallTeardown s"
proof (cases d)
  case 0
  then show ?thesis by (cases c) simp_all
next
  case (Suc d1)
  have r: "heap (state_of (run d1 a False cs (logged a x s))) = heap s \<and>
           calls (state_of (run d1 a False cs (logged a x s))) = calls s @ [(a, x)]" for cs x
    using run_no_self [of False cs d1 a "logged a x s"] by simp
  have u: "heap s1 = heap s \<Longrightarrow>
           call_count a CallTeardown (state_of (Observer_unsubscribe k a s1))
             = call_count a CallTeardown s1" for s1 k
    using assms(2) unsubscribe_fresh_calls [of s1 a k] by (simp add: call_count_def)
  show ?thesis
  proof (cases c)
    case (Next v)
    with Suc assms(1) r [of "fst (the (h_next (handlers (heap s a))) v)" "CallNext v"]
    show ?thesis by (simp add: call_count_def)
  next
    case (Error e)
    let ?r = "run d1 a False (fst (the (h_error (handlers (heap s a))) e)) (logged a (CallError e) s)"
    note rr = r [of "fst (the (h_error (handlers (heap s a))) e)" "CallError e"]
    have "call_count a CallTeardown (state_of ?r) = call_count a CallTeardown s"
      using rr by (simp add: call_count_def)
    moreover have "call_count a CallTeardown (state_of (Observer_unsubscribe d1 a (state_of ?r)))
        = call_count a CallTeardown (state_of ?r)"
      using u rr by simp
    ultimately show ?thesis
      using Error Suc assms(1) u [of s]
      by (cases ?r) (simp_all del: Observer_unsubscribe.simps)
  next
    case Complete
    let ?r = "run d1 a False (the (h_complete (handlers (heap s a)))) (logged a CallComplete s)"
    note rr = r [of "the (h_complete (handlers (heap s a)))" CallComplete]
    have "call_count a CallTeardown (state_of ?r) = call_count a CallTeardown s"
      using rr by (simp add: call_count_def)
    moreover have "call_count a CallTeardown (state_of (Observer_unsubscribe d1 a (state_of ?r)))
        = call_count a CallTeardown (state_of ?r)"
      using u rr by simp
    ultimately show ?thesis
      using Complete Suc assms(1) u [of s]
      by (cases ?r) (simp_all del: Observer_unsubscribe.simps)
  next
    case Unsubscribe
    with u [of s d] show ?thesis by (simp del: Observer_unsubscribe.simps)
  qed
qed

lemma forEach_fresh_count:
  "\<not> reachable (heap s a) \<Longrightarrow> p_unsubscribe (heap s a) = None \<Longrightarrow>
   call_count a CallTeardown (state_of (forEach (apply_op d a) ops s))
     = call_count a CallTeardown s"
proof (induction ops arbitrary: s)
  case Nil
  show ?case by simp
next
  case (Cons c ops)
  note st = apply_op_fresh_count [OF Cons.prems, of d c]
  show ?case
  proof (cases "apply_op d a c s")
    case (Normal u s0)
    with frame_apply_op [of a s d c] have f: "frame a s s0" by simp
    have "\<not> reachable (heap s0 a)" "p_unsubscribe (heap s0 a) = None"
      using frame_fields(2,3) [OF f] Cons.prems by simp_all
    from Cons.IH [OF this] st Normal show ?thesis by simp
  next
    case (Thrown s0)
    with st show ?thesis by simp
  qed
qed

lemma forEach_terminal:
  "forEach (apply_op d a) ops s = Normal u s1 \<Longrightarrow>
   isUnsubscribed (heap s a) \<or> Complete \<in> set ops \<or> (\<exists>e. Error e \<in> set ops) \<Longrightarrow>
   isUnsubscribed (heap s1 a)"
proof (induction ops arbitrary: s)
  case Nil
  then show ?case by simp
next
  case (Cons c ops)
  from Cons.prems(1) obtain s0 where a: "apply_op d a c s = Normal () s0"
    and b: "forEach (apply_op d a) ops s0 = Normal u s1"
    by (auto split: outcome.splits)
  have "isUnsubscribed (heap s0 a) \<or> Complete \<in> set ops \<or> (\<exists>e. Error e \<in> set ops)"
  proof (cases "isUnsubscribed (heap s a)")
    case True
    from frame_flag [OF frame_apply_op [of a s d c] True] a show ?thesis by simp
  next
    case False
    with Cons.prems(2) consider "c = Complete" | e where "c = Error e"
      | "Complete \<in> set ops \<or> (\<exists>e. Error e \<in> set ops)"
      by auto
    then show ?thesis
    proof cases
      case 1
      with a flag_after_complete [of d a s "()" s0] show ?thesis by simp
    next
      case 2
      with a flag_after_error [of d a e s "()" s0] show ?thesis by simp
    next
      case 3
      then show ?thesis by simp
    qed
  qed
  from Cons.IH [OF b this] show ?case .
qed

lemma set_unsubscribed_idle: "isUnsubscribed (heap s a) \<Longrightarrow> set_unsubscribed a s = s"
proof -
  assume "isUnsubscribed (heap s a)"
  then have "(heap s a)\<lparr>isUnsubscribed := True\<rparr> = heap s a"
    by (cases "heap s a") simp
  then show ?thesis by (simp add: set_unsubscribed_def)
qed

lemma example_facts:
  "\<exists>sub s1 s2.
     example_subscribe (Suc (Suc d)) now s = Normal sub s1 \<and>
     observer_of sub = allocated s \<and>
     calls s1 = calls s @ map (\<lambda>v. (allocated s, CallNext v)) (requestsMock now)
                 @ [(allocated s, CallComplete)] \<and>
     world s1 = console_log ''complete'' (world s) \<and>
     isUnsubscribed (heap s1 (allocated s)) \<and>
     example_main (Suc (Suc d)) now s = Normal () s2 \<and>
     calls s2 = calls s1 @ [(allocated s, CallTeardown)] \<and>
     world s2 = console_log ''unsubscribed'' (console_log ''complete'' (world s))"
proof -
  have "\<exists>sub s1. Observable_subscribe (Suc (Suc d)) (Observable_from (requestsMock now))
          exampleHandlers s = Normal sub s1"
    by (rule subscribe_from_total)
      (simp_all add: exampleHandlers_def handleRequest_def handleComplete_def)
  then obtain sub s1 where
    r: "Observable_subscribe (Suc (Suc d)) (Observable_from (requestsMock now))
          exampleHandlers s = Normal sub s1"
    by blast
  note f = subscribe_from [OF r]
  have c: "calls s1 = calls s @ map (\<lambda>v. (allocated s, CallNext v)) (requestsMock now)
                 @ [(allocated s, CallComplete)]"
    using f(3) by (simp add: delivered_calls_def exampleHandlers_def)
  have w: "world s1 = console_log ''complete'' (world s)"
    using f(4)
    by (simp add: delivered_world_def exampleHandlers_def handleRequest_def handleComplete_def
          requestsMock_def)
  have td: "p_unsubscribe (heap s1 (allocated s)) = Some [Effect (console_log ''unsubscribed'')]"
    using f(5) by simp
  have u: "Observer_unsubscribe (Suc (Suc d)) (allocated s) s1 =
      Normal () (set_unsubscribed (allocated s) s1
        \<lparr>world := effect_of [Effect (console_log ''unsubscribed'')] (world s1),
          calls := calls s1 @ [(allocated s, CallTeardown)]\<rparr>)"
    using unsubscribe_plain [OF td, of "Suc d"] by (simp del: Observer_unsubscribe.simps)
  have m: "example_main (Suc (Suc d)) now s
      = Observer_unsubscribe (Suc (Suc d)) (allocated s) s1"
    using r f(1) by (simp add: example_main_def example_subscribe_def subscription_unsubscribe_def
        del: Observer_unsubscribe.simps)
  from r f(1) c w f(5) m u show ?thesis
    by (simp add: example_subscribe_def del: Observer_unsubscribe.simps)
qed

section \<open>The properties\<close>

subsection \<open>C1: \<open>unsubscribe\<close> called repeatedly\<close>

text \<open>
  C1, as stated: with a teardown attached, only the first \<open>unsubscribe()\<close> has an effect,
  and later calls do not run the teardown again. \<open>Observer.unsubscribe\<close> tests only
  whether a teardown is attached, not whether the flag was already set: on the live
  observer of \<open>idle\<close>, whose teardown only prints, the first call runs the teardown once
  and the second call runs it a second time (two lines on the console).
\<close>

theorem unsubscribe_twice_counterexample:
  "call_count 0 CallTeardown (state_of (Observer_unsubscribe 1 0 idle)) = 1 \<and>
   call_count 0 CallTeardown
     (state_of (Observer_unsubscribe 1 0 (state_of (Observer_unsubscribe 1 0 idle)))) = 2 \<and>
   console (world (state_of (Observer_unsubscribe 1 0 (state_of (Observer_unsubscribe 1 0 idle)))))
     = [''unsubscribed'', ''unsubscribed'']"
  by (simp add: call_count_def idle_def idle_with_facts Let_def console_log_def)

text \<open>
  C1, amended: with a teardown attached that only acts on the outside world (it
  returns, and does not call the observer), every call of \<open>unsubscribe()\<close> returns, sets
  the flag and runs the teardown. The observers' fields after any number of calls are
  what they are after the first, and \<open>n\<close> calls run the teardown \<open>n\<close> times. With a
  teardown that starts by calling \<open>unsubscribe()\<close> on its own observer, no call returns:
  it throws once the stack is used up, however much room there was.
\<close>

theorem unsubscribe_repeated:
  assumes "p_unsubscribe (heap s this) = Some td"
  shows "(effects_only td \<longrightarrow>
            Observer_unsubscribe (Suc d) this s =
              Normal () (set_unsubscribed this s
                \<lparr>world := effect_of td (world s), calls := calls s @ [(this, CallTeardown)]\<rparr>) \<and>
            isUnsubscribed (heap (run_calls (Suc d) (replicate (Suc n) (this, Unsubscribe)) s) this) \<and>
            heap (run_calls (Suc d) (replicate (Suc n) (this, Unsubscribe)) s)
              = heap (set_unsubscribed this s) \<and>
            call_count this CallTeardown (run_calls (Suc d) (replicate n (this, Unsubscribe)) s)
              = call_count this CallTeardown s + n \<and>
            world (run_calls (Suc d) (replicate n (this, Unsubscribe)) s)
              = (effect_of td ^^ n) (world s)) \<and>
         ((\<exists>cs. td = Self Unsubscribe # cs) \<longrightarrow>
            (\<forall>k. \<exists>s'. Observer_unsubscribe k this s = Thrown s'))"
proof (intro conjI impI)
  assume e: "effects_only td"
  note r = unsubscribe_replicate [OF e assms, of d]
  show "Observer_unsubscribe (Suc d) this s =
      Normal () (set_unsubscribed this s
        \<lparr>world := effect_of td (world s), calls := calls s @ [(this, CallTeardown)]\<rparr>)"
    by (rule unsubscribe_plain [OF assms e])
  show h: "heap (run_calls (Suc d) (replicate (Suc n) (this, Unsubscribe)) s)
      = heap (set_unsubscribed this s)"
    using r [of "Suc n"] by simp
  show "isUnsubscribed (heap (run_calls (Suc d) (replicate (Suc n) (this, Unsubscribe)) s) this)"
    unfolding h by simp
  show "call_count this CallTeardown (run_calls (Suc d) (replicate n (this, Unsubscribe)) s)
      = call_count this CallTeardown s + n"
    using r [of n] by (simp add: call_count_def)
  show "world (run_calls (Suc d) (replicate n (this, Unsubscribe)) s)
      = (effect_of td ^^ n) (world s)"
    using r [of n] by simp
next
  assume "\<exists>cs. td = Self Unsubscribe # cs"
  then obtain cs where "td = Self Unsubscribe # cs" ..
  with assms have "p_unsubscribe (heap s this) = Some (Self Unsubscribe # cs)" by simp
  from unsubscribe_recursive [OF this]
  show "\<forall>k. \<exists>s'. Observer_unsubscribe k this s = Thrown s'" by blast
qed

theorem unsubscribe_repeated_witness:
  "p_unsubscribe (heap idle 0) = Some [Effect (console_log ''unsubscribed'')] \<and>
   effects_only [Effect (console_log ''unsubscribed'') :: (unit, unit) cmd] \<and>
   isUnsubscribed (heap (run_calls 1 (replicate 4 (0, Unsubscribe)) idle) 0) \<and>
   call_count 0 CallTeardown (run_calls 1 (replicate 3 (0, Unsubscribe)) idle) = 3 \<and>
   p_unsubscribe (heap idle_recursive 0) = Some [Self Unsubscribe] \<and>
   (\<exists>s'. Observer_unsubscribe 5 0 idle_recursive = Thrown s')"
proof -
  have td: "p_unsubscribe (heap idle 0) = Some [Effect (console_log ''unsubscribed'')]"
    by (simp add: idle_def idle_with_facts)
  have e: "effects_only [Effect (console_log ''unsubscribed'') :: (unit, unit) cmd]"
    by simp
  have c: "call_count 0 CallTeardown idle = 0"
    by (simp add: call_count_def idle_def idle_with_facts)
  have tr: "p_unsubscribe (heap idle_recursive 0) = Some [Self Unsubscribe]"
    by (simp add: idle_recursive_facts)
  from unsubscribe_repeated [OF td, of 0 3] e
  have "isUnsubscribed (heap (run_calls (Suc 0) (replicate (Suc 3) (0, Unsubscribe)) idle) 0)"
    and "call_count 0 CallTeardown (run_calls (Suc 0) (replicate 3 (0, Unsubscribe)) idle)
           = call_count 0 CallTeardown idle + 3"
    by blast+
  moreover from unsubscribe_repeated [OF tr, of 0 0]
  have "\<exists>s'. Observer_unsubscribe 5 0 idle_recursive = Thrown s'" by blast
  ultimately show ?thesis using td e c tr by simp
qed

subsection \<open>C2: the example\<close>

text \<open>
  C2, as stated: in the example \<open>onNext\<close> is called twice, \<open>onError\<close> never, \<open>onComplete\<close>
  once, and the \<open>unsubscribe()\<close> that follows does not run the teardown. The last part
  fails: the teardown has not run when \<open>subscribe\<close> returns, and
  \<open>subscription.unsubscribe()\<close> runs it, printing \<open>unsubscribed\<close>.
\<close>

theorem example_unsubscribe_counterexample:
  "call_count 0 CallTeardown (state_of (example_subscribe 2 0 (init_state () :: (unit, unit) state))) = 0 \<and>
   call_count 0 CallTeardown (state_of (example_main 2 0 (init_state () :: (unit, unit) state))) = 1 \<and>
   console (world (state_of (example_subscribe 2 0 (init_state () :: (unit, unit) state))))
     = [''complete''] \<and>
   console (world (state_of (example_main 2 0 (init_state () :: (unit, unit) state))))
     = [''complete'', ''unsubscribed'']"
proof -
  from example_facts [of 0 0 "init_state () :: (unit, unit) state"]
  obtain sub s1 s2 where
    "example_subscribe 2 0 (init_state () :: (unit, unit) state) = Normal sub s1"
    "calls s1 = map (\<lambda>v. (0, CallNext v)) (requestsMock 0) @ [(0, CallComplete)]"
    "world s1 = console_log ''complete'' \<lparr>console = [], outside = ()\<rparr>"
    "example_main 2 0 (init_state () :: (unit, unit) state) = Normal () s2"
    "calls s2 = calls s1 @ [(0, CallTeardown)]"
    "world s2 = console_log ''unsubscribed'' (console_log ''complete'' \<lparr>console = [], outside = ()\<rparr>)"
    by (auto simp: init_state_facts numeral_2_eq_2)
  then show ?thesis
    by (simp add: call_count_def console_log_def requestsMock_def)
qed

text \<open>
  C2, amended: subscribing to \<open>Observable.from(requestsMock)\<close> with the three handlers
  returns, having called \<open>onNext\<close> once for each of the two requests, in order, then
  \<open>onComplete\<close> once, and nothing else (no \<open>onError\<close>, no teardown); the observer is then
  unsubscribed. The \<open>unsubscribe()\<close> that follows runs the teardown, once: \<open>complete\<close> and
  then \<open>unsubscribed\<close> are what the module prints.
\<close>

theorem example_run:
  "length (requestsMock now) = 2 \<and>
   (\<exists>sub s1 s2.
      example_subscribe (Suc (Suc d)) now s = Normal sub s1 \<and>
      observer_of sub = allocated s \<and>
      calls s1 = calls s @ map (\<lambda>v. (allocated s, CallNext v)) (requestsMock now)
                  @ [(allocated s, CallComplete)] \<and>
      isUnsubscribed (heap s1 (allocated s)) \<and>
      example_main (Suc (Suc d)) now s = Normal () s2 \<and>
      calls s2 = calls s1 @ [(allocated s, CallTeardown)] \<and>
      console (world s2) = console (world s) @ [''complete'', ''unsubscribed''])"
proof -
  from example_facts [of d now s] obtain sub s1 s2 where
    a: "example_subscribe (Suc (Suc d)) now s = Normal sub s1"
      "observer_of sub = allocated s"
      "calls s1 = calls s @ map (\<lambda>v. (allocated s, CallNext v)) (requestsMock now)
                 @ [(allocated s, CallComplete)]"
      "isUnsubscribed (heap s1 (allocated s))"
      "example_main (Suc (Suc d)) now s = Normal () s2"
      "calls s2 = calls s1 @ [(allocated s, CallTeardown)]"
    and w: "world s2 = console_log ''unsubscribed'' (console_log ''complete'' (world s))"
    by blast
  from w have "console (world s2) = console (world s) @ [''complete'', ''unsubscribed'']"
    by (simp add: console_log_def)
  with a have "\<exists>sub s1 s2.
      example_subscribe (Suc (Suc d)) now s = Normal sub s1 \<and>
      observer_of sub = allocated s \<and>
      calls s1 = calls s @ map (\<lambda>v. (allocated s, CallNext v)) (requestsMock now)
                  @ [(allocated s, CallComplete)] \<and>
      isUnsubscribed (heap s1 (allocated s)) \<and>
      example_main (Suc (Suc d)) now s = Normal () s2 \<and>
      calls s2 = calls s1 @ [(allocated s, CallTeardown)] \<and>
      console (world s2) = console (world s) @ [''complete'', ''unsubscribed'']"
    by blast
  moreover have "length (requestsMock now) = 2" by (simp add: requestsMock_def)
  ultimately show ?thesis by blast
qed

theorem example_run_witness:
  "\<exists>sub s1 s2.
      example_subscribe 2 0 (init_state () :: (unit, unit) state) = Normal sub s1 \<and>
      observer_of sub = 0 \<and>
      calls s1 = [(0, CallNext (requestsMock 0 ! 0)), (0, CallNext (requestsMock 0 ! 1)),
                  (0, CallComplete)] \<and>
      isUnsubscribed (heap s1 0) \<and>
      example_main 2 0 (init_state () :: (unit, unit) state) = Normal () s2 \<and>
      calls s2 = calls s1 @ [(0, CallTeardown)] \<and>
      console (world s2) = [''complete'', ''unsubscribed'']"
  using conjunct2 [OF example_run [of 0 0 "init_state () :: (unit, unit) state"]]
  by (simp add: init_state_facts numeral_2_eq_2 requestsMock_def)

subsection \<open>C3: the teardown of a synchronous producer\<close>

text \<open>
  C3: \<open>subscribe\<close> assigns the teardown only after the producer has returned. So for a
  synchronous producer that calls \<open>complete()\<close> or \<open>error()\<close> while it runs, the teardown
  field of the new observer is undefined at every point of the run (after each prefix of
  the producer's calls), and no teardown runs during \<open>subscribe\<close>; when \<open>subscribe\<close>
  returns the observer is already unsubscribed and now has the teardown; and the first
  \<open>unsubscribe()\<close> on the returned object calls the teardown, for the first time: with
  a teardown that only acts on the world it returns, the teardown having run once.
  \<open>Observable.from\<close> is such a producer (\<open>from_scripted\<close>).
\<close>

theorem subscribe_teardown_deferred:
  assumes "Complete \<in> set ops \<or> (\<exists>e. Error e \<in> set ops)"
    and "Observable_subscribe d (scripted ops td) h s = Normal sub s'"
  shows "(\<forall>k. p_unsubscribe (heap (state_of (forEach (apply_op d (observer_of sub)) (take k ops)
                   (snd (Observer_new h s)))) (observer_of sub)) = None) \<and>
         call_count (observer_of sub) CallTeardown s' = call_count (observer_of sub) CallTeardown s \<and>
         isUnsubscribed (heap s' (observer_of sub)) \<and>
         p_unsubscribe (heap s' (observer_of sub)) = Some td \<and>
         (\<forall>j. subscription_unsubscribe (Suc j) sub s'
                = run j (observer_of sub) True td (logged (observer_of sub) CallTeardown s')) \<and>
         (effects_only td \<longrightarrow>
            (\<forall>j. \<exists>s2. subscription_unsubscribe (Suc j) sub s' = Normal () s2 \<and>
               call_count (observer_of sub) CallTeardown s2
                 = Suc (call_count (observer_of sub) CallTeardown s) \<and>
               world s2 = effect_of td (world s')))"
proof -
  let ?a = "allocated s"
  let ?s0 = "snd (Observer_new h s)"
  have s0: "p_unsubscribe (heap ?s0 ?a) = None" "\<not> reachable (heap ?s0 ?a)"
    "calls ?s0 = calls s"
    by (simp_all add: Observer_new_def)
  from assms(2) obtain s1 where
    f: "forEach (apply_op d ?a) ops ?s0 = Normal () s1"
    and eq: "sub = Subscription ?a"
      "s' = s1\<lparr>heap := (heap s1)(?a := (heap s1 ?a)\<lparr>p_unsubscribe := Some td, reachable := True\<rparr>)\<rparr>"
    by (auto simp: Observable_subscribe_def scripted_def Observer_new_def split: outcome.splits)
  have during: "p_unsubscribe (heap (state_of (forEach (apply_op d ?a) (take k ops) ?s0)) ?a) = None"
    for k
    using frame_fields(2) [OF frame_forEach [of ?a ?s0 d "take k ops"], of ?a] s0(1) by simp
  have cnt: "call_count ?a CallTeardown s1 = call_count ?a CallTeardown s"
    using forEach_fresh_count [OF s0(2) s0(1), of d ops] f s0(3) by (simp add: call_count_def)
  have flag: "isUnsubscribed (heap s1 ?a)"
    using forEach_terminal [OF f] assms(1) by blast
  have c': "call_count ?a CallTeardown s' = call_count ?a CallTeardown s"
    using cnt by (simp add: eq call_count_def)
  have fl': "isUnsubscribed (heap s' ?a)" "p_unsubscribe (heap s' ?a) = Some td"
    using flag by (simp_all add: eq)
  have su: "set_unsubscribed ?a s' = s'"
    by (rule set_unsubscribed_idle [OF fl'(1)])
  have un: "subscription_unsubscribe (Suc j) sub s' = run j ?a True td (logged ?a CallTeardown s')"
    for j
    using fl'(2) su by (simp add: subscription_unsubscribe_def eq(1) Let_def)
  have pl: "\<exists>s2. subscription_unsubscribe (Suc j) sub s' = Normal () s2 \<and>
               call_count ?a CallTeardown s2 = Suc (call_count ?a CallTeardown s) \<and>
               world s2 = effect_of td (world s')" if "effects_only td" for j
    using un [of j] run_effects_only [OF that, of j ?a True "logged ?a CallTeardown s'"] c'
    by (simp add: call_count_def)
  from during c' fl' un pl show ?thesis
    by (simp add: eq(1))
qed

theorem subscribe_teardown_deferred_witness:
  "Complete \<in> set (map Next (requestsMock 0) @ [Complete :: unit op]) \<and>
   effects_only [Effect (console_log ''unsubscribed'') :: (unit, unit) cmd] \<and>
   (\<exists>sub s1 s2. example_subscribe 2 0 (init_state () :: (unit, unit) state) = Normal sub s1 \<and>
      call_count 0 CallTeardown s1 = 0 \<and> isUnsubscribed (heap s1 0) \<and>
      subscription_unsubscribe 1 sub s1 = Normal () s2 \<and> call_count 0 CallTeardown s2 = 1)"
proof -
  let ?s = "init_state () :: (unit, unit) state"
  let ?td = "[Effect (console_log ''unsubscribed'') :: (unit, unit) cmd]"
  have t: "Complete \<in> set (map Next (requestsMock 0) @ [Complete :: unit op])
      \<or> (\<exists>e. Error e \<in> set (map Next (requestsMock 0) @ [Complete :: unit op]))"
    by simp
  have e: "effects_only ?td" by simp
  from example_facts [of 0 0 ?s] obtain sub s1 where
    r0: "example_subscribe 2 0 ?s = Normal sub s1" and a: "observer_of sub = 0"
    by (auto simp: init_state_facts numeral_2_eq_2)
  then have r: "Observable_subscribe 2 (scripted (map Next (requestsMock 0) @ [Complete]) ?td)
       exampleHandlers ?s = Normal sub s1"
    by (simp add: example_subscribe_def from_scripted)
  have c: "call_count 0 CallTeardown ?s = 0"
    by (simp add: init_state_facts call_count_def)
  from subscribe_teardown_deferred [OF t r] a c e
  have "call_count 0 CallTeardown s1 = 0" "isUnsubscribed (heap s1 0)"
    "\<exists>s2. subscription_unsubscribe (Suc 0) sub s1 = Normal () s2 \<and>
       call_count 0 CallTeardown s2 = Suc 0"
    by auto
  with r0 t e show ?thesis
    by (auto simp del: Observer_unsubscribe.simps)
qed

subsection \<open>C4: \<open>from([a, b])\<close>\<close>

text \<open>
  C4: for all values \<open>a\<close>, \<open>b\<close>, subscribing to \<open>Observable.from([a, b])\<close> with an \<open>onNext\<close>
  handler \<open>f\<close> and an \<open>onComplete\<close> handler \<open>g\<close> calls \<open>f\<close> with \<open>a\<close>, then \<open>f\<close> with \<open>b\<close>,
  then \<open>g\<close> once, and nothing else; afterwards the observer's \<open>isUnsubscribed\<close> is true.
  That is what has happened whenever \<open>subscribe\<close> returns; and it does return when the
  handlers only act on the outside world and there is room for two nested calls.
\<close>

theorem from_pair_roundtrip:
  assumes "h_next h = Some f" and "h_complete h = Some g"
  shows "(Observable_subscribe d (Observable_from [a, b]) h s = Normal sub s' \<longrightarrow>
            calls s' = calls s @ [(observer_of sub, CallNext a), (observer_of sub, CallNext b),
                                  (observer_of sub, CallComplete)] \<and>
            world s' = effect_of g (effect_of (fst (f b)) (effect_of (fst (f a)) (world s))) \<and>
            isUnsubscribed (heap s' (observer_of sub))) \<and>
         (effects_only (fst (f a)) \<and> effects_only (fst (f b)) \<and> effects_only g \<longrightarrow>
            (\<exists>sub s'. Observable_subscribe (Suc (Suc k)) (Observable_from [a, b]) h s
                        = Normal sub s'))"
proof (rule conjI; rule impI)
  assume r: "Observable_subscribe d (Observable_from [a, b]) h s = Normal sub s'"
  from subscribe_from [OF r] assms
  show "calls s' = calls s @ [(observer_of sub, CallNext a), (observer_of sub, CallNext b),
                                  (observer_of sub, CallComplete)] \<and>
        world s' = effect_of g (effect_of (fst (f b)) (effect_of (fst (f a)) (world s))) \<and>
        isUnsubscribed (heap s' (observer_of sub))"
    by (simp add: delivered_calls_def delivered_world_def)
next
  assume "effects_only (fst (f a)) \<and> effects_only (fst (f b)) \<and> effects_only g"
  with assms show "\<exists>sub s'. Observable_subscribe (Suc (Suc k)) (Observable_from [a, b]) h s
      = Normal sub s'"
    by (intro subscribe_from_total) simp_all
qed

theorem from_pair_roundtrip_witness:
  "h_next (exampleHandlers :: (unit, unit) IHandlers) = Some handleRequest \<and>
   h_complete (exampleHandlers :: (unit, unit) IHandlers) = Some handleComplete \<and>
   (\<exists>sub s'. Observable_subscribe 2 (Observable_from [requestsMock 0 ! 0, requestsMock 0 ! 1])
                exampleHandlers (init_state () :: (unit, unit) state) = Normal sub s' \<and>
      calls s' = [(observer_of sub, CallNext (requestsMock 0 ! 0)),
                  (observer_of sub, CallNext (requestsMock 0 ! 1)),
                  (observer_of sub, CallComplete)] \<and>
      isUnsubscribed (heap s' (observer_of sub)))"
proof -
  let ?s = "init_state () :: (unit, unit) state"
  let ?a = "requestsMock 0 ! 0"
  let ?b = "requestsMock 0 ! 1"
  have h: "h_next (exampleHandlers :: (unit, unit) IHandlers) = Some handleRequest"
    "h_complete (exampleHandlers :: (unit, unit) IHandlers) = Some handleComplete"
    by (simp_all add: exampleHandlers_def)
  have e: "effects_only (fst ((handleRequest :: (unit, unit) TNextFunc) ?a)) \<and>
           effects_only (fst ((handleRequest :: (unit, unit) TNextFunc) ?b)) \<and>
           effects_only (handleComplete :: (unit, unit) TCompleteFunc)"
    by (simp add: handleRequest_def handleComplete_def)
  note t = from_pair_roundtrip [OF h, where a = ?a and b = ?b and s = ?s and k = 0]
  from t e obtain sub s' where
    r: "Observable_subscribe (Suc (Suc 0)) (Observable_from [?a, ?b]) exampleHandlers ?s = Normal sub s'"
    by blast
  from from_pair_roundtrip [OF h, where a = ?a and b = ?b and s = ?s and d = "Suc (Suc 0)"
      and sub = sub and s' = s'] r
  have "calls s' = calls ?s @ [(observer_of sub, CallNext ?a), (observer_of sub, CallNext ?b),
                                  (observer_of sub, CallComplete)]"
    and "isUnsubscribed (heap s' (observer_of sub))"
    by blast+
  with r h show ?thesis
    by (simp add: init_state_facts numeral_2_eq_2 del: Observer_next.simps Observer_complete.simps)
qed

subsection \<open>C5: \<open>next\<close> after a terminal call\<close>

text \<open>
  C5, as stated: for every handler set, once \<open>complete()\<close> or \<open>error(e)\<close> has been
  called, a later \<open>next(v)\<close> never calls \<open>onNext\<close>. When the \<open>onComplete\<close> (or \<open>onError\<close>)
  handler throws, the method ends before its \<open>this.unsubscribe()\<close>; the flag stays false,
  and the \<open>next(v)\<close> that follows calls \<open>onNext\<close>.
\<close>

theorem next_after_terminal_counterexample:
  "(\<exists>s'. Observer_complete 2 0 (idle_with throwingHandlers) = Thrown s') \<and>
   \<not> isUnsubscribed (heap (state_of (Observer_complete 2 0 (idle_with throwingHandlers))) 0) \<and>
   calls (state_of (Observer_next 1 0 (requestsMock 0 ! 0)
            (state_of (Observer_complete 2 0 (idle_with throwingHandlers)))))
     = [(0, CallComplete), (0, CallNext (requestsMock 0 ! 0))] \<and>
   calls (state_of (Observer_next 1 0 (requestsMock 0 ! 0)
            (state_of (Observer_error 2 0 () (idle_with throwingHandlers)))))
     = [(0, CallError ()), (0, CallNext (requestsMock 0 ! 0))]"
  by (simp add: idle_with_facts throwingHandlers_def handleRequest_def numeral_2_eq_2)

text \<open>
  C5, amended: for every handler set and every value \<open>v\<close>, once \<open>complete()\<close> or
  \<open>error(e)\<close> has been called on an observer and has returned (nothing it ran threw), a
  later \<open>next(v)\<close> on it, directly or after any further calls \<open>cs\<close> on any observers,
  changes nothing: \<open>onNext\<close> is not called.
\<close>

theorem next_after_terminal:
  "(Observer_complete d this s = Normal u s1 \<longrightarrow>
      Observer_next (Suc k) this v (run_calls j cs s1) = Normal () (run_calls j cs s1)) \<and>
   (Observer_error d this e s = Normal u s1 \<longrightarrow>
      Observer_next (Suc k) this v (run_calls j cs s1) = Normal () (run_calls j cs s1))"
  using flag_run_calls [OF flag_after_complete, of d this s u s1 j cs]
    flag_run_calls [OF flag_after_error, of d this e s u s1 j cs]
  by simp

theorem next_after_terminal_witness:
  "(\<exists>s1. Observer_complete 2 0 idle = Normal () s1 \<and>
      calls s1 = [(0, CallComplete), (0, CallTeardown)] \<and>
      Observer_next 1 0 (requestsMock 0 ! 0) (run_calls 2 [(0, Unsubscribe)] s1)
        = Normal () (run_calls 2 [(0, Unsubscribe)] s1)) \<and>
   (\<exists>s1. Observer_error 2 0 () idle = Normal () s1 \<and>
      calls s1 = [(0, CallError ()), (0, CallTeardown)] \<and>
      Observer_next 1 0 (requestsMock 0 ! 0) (run_calls 2 [(0, Unsubscribe)] s1)
        = Normal () (run_calls 2 [(0, Unsubscribe)] s1))"
proof -
  obtain s1 where c: "Observer_complete 2 0 idle = Normal () s1"
    and c1: "calls s1 = [(0, CallComplete), (0, CallTeardown)]"
    by (simp add: idle_def idle_with_facts exampleHandlers_def handleComplete_def Let_def
          numeral_2_eq_2)
  obtain s2 where e: "Observer_error 2 0 () idle = Normal () s2"
    and e1: "calls s2 = [(0, CallError ()), (0, CallTeardown)]"
    by (simp add: idle_def idle_with_facts exampleHandlers_def handleError_def Let_def
          numeral_2_eq_2)
  from next_after_terminal [where d=2 and this=0 and s=idle and u="()" and ?s1.0=s1 and k=0
      and v="requestsMock 0 ! 0" and j=2 and cs="[(0, Unsubscribe)]"] c
  have "Observer_next 1 0 (requestsMock 0 ! 0) (run_calls 2 [(0, Unsubscribe)] s1)
        = Normal () (run_calls 2 [(0, Unsubscribe)] s1)"
    by simp
  moreover
  from next_after_terminal [where d=2 and this=0 and s=idle and u="()" and ?s1.0=s2 and k=0
      and v="requestsMock 0 ! 0" and j=2 and cs="[(0, Unsubscribe)]" and e="()"] e
  have "Observer_next 1 0 (requestsMock 0 ! 0) (run_calls 2 [(0, Unsubscribe)] s2)
        = Normal () (run_calls 2 [(0, Unsubscribe)] s2)"
    by simp
  ultimately show ?thesis using c c1 e e1 by blast
qed

subsection \<open>C6: \<open>error\<close> ends the subscription\<close>

text \<open>
  C6, as stated: on a live observer with a teardown attached, one call of \<open>error(e)\<close>
  sets \<open>isUnsubscribed\<close> and runs the teardown exactly once, whatever the handlers. With
  an \<open>onError\<close> handler that calls \<open>unsubscribe()\<close>, the one call of \<open>error(e)\<close> returns
  having run the teardown twice (once from the handler, once from \<open>error\<close> itself); with
  an \<open>onError\<close> handler that throws, \<open>error(e)\<close> ends before its \<open>this.unsubscribe()\<close>, the
  flag stays false and the teardown does not run.
\<close>

theorem error_terminates_counterexample:
  "(\<exists>s'. Observer_error 3 0 () (idle_with reentrantHandlers) = Normal () s' \<and>
      call_count 0 CallTeardown s' = 2) \<and>
   (\<exists>s'. Observer_error 3 0 () (idle_with throwingHandlers) = Thrown s' \<and>
      \<not> isUnsubscribed (heap s' 0) \<and> call_count 0 CallTeardown s' = 0)"
  by (simp add: idle_with_facts reentrantHandlers_def throwingHandlers_def call_count_def
        Let_def numeral_3_eq_3)

text \<open>
  C6, amended: on an observer that is not unsubscribed and has a teardown attached,
  when the teardown and the \<open>onError\<close> handler (if there is one) only act on the outside
  world (they return, and do not call the observer), one call of \<open>error(e)\<close> returns,
  sets \<open>isUnsubscribed\<close> and runs the teardown exactly once, whether or not there is an
  \<open>onError\<close> handler: the handler, if any, is called first, and the teardown is the last
  call made.
\<close>

theorem error_terminates:
  assumes "\<not> isUnsubscribed (heap s this)"
    and "p_unsubscribe (heap s this) = Some td"
    and "effects_only td"
    and "case h_error (handlers (heap s this)) of None \<Rightarrow> True | Some f \<Rightarrow> effects_only (fst (f e))"
  shows "\<exists>s'. Observer_error (Suc (Suc d)) this e s = Normal () s' \<and>
           isUnsubscribed (heap s' this) \<and>
           call_count this CallTeardown s' = Suc (call_count this CallTeardown s) \<and>
           calls s' = calls s
               @ (if h_error (handlers (heap s this)) \<noteq> None then [(this, CallError e)] else [])
               @ [(this, CallTeardown)] \<and>
           world s' = effect_of td (case h_error (handlers (heap s this)) of
                                     None \<Rightarrow> world s
                                   | Some f \<Rightarrow> effect_of (fst (f e)) (world s))"
proof (cases "h_error (handlers (heap s this))")
  case None
  with assms show ?thesis
    by (simp add: unsubscribe_plain call_count_def del: Observer_unsubscribe.simps)
next
  case (Some f)
  let ?s1 = "logged this (CallError e) s\<lparr>world := effect_of (fst (f e)) (world s)\<rparr>"
  have r: "run (Suc d) this (reachable (heap s this)) (fst (f e)) (logged this (CallError e) s)
      = Normal () ?s1"
    using assms(4) Some by (simp add: run_effects_only)
  have td: "p_unsubscribe (heap ?s1 this) = Some td"
    using assms(2) by simp
  from assms(1) Some r unsubscribe_plain [OF td assms(3), of d] show ?thesis
    by (simp add: call_count_def del: Observer_unsubscribe.simps)
qed

theorem error_terminates_witness:
  "\<not> isUnsubscribed (heap idle_bare 0) \<and>
   p_unsubscribe (heap idle_bare 0) = Some [Effect (console_log ''unsubscribed'')] \<and>
   h_error (handlers (heap idle_bare 0)) = None \<and>
   (\<exists>s'. Observer_error 2 0 () idle_bare = Normal () s' \<and> isUnsubscribed (heap s' 0) \<and>
      calls s' = [(0, CallTeardown)]) \<and>
   (\<exists>s'. Observer_error 2 0 () idle = Normal () s' \<and> isUnsubscribed (heap s' 0) \<and>
      calls s' = [(0, CallError ()), (0, CallTeardown)])"
proof -
  have b: "\<not> isUnsubscribed (heap idle_bare 0)"
    "p_unsubscribe (heap idle_bare 0) = Some [Effect (console_log ''unsubscribed'')]"
    "h_error (handlers (heap idle_bare 0)) = None"
    "calls idle_bare = []"
    by (simp_all add: idle_bare_def idle_with_facts noHandlers_def)
  have i: "\<not> isUnsubscribed (heap idle 0)"
    "p_unsubscribe (heap idle 0) = Some [Effect (console_log ''unsubscribed'')]"
    "h_error (handlers (heap idle 0)) = Some handleError"
    "calls idle = []"
    by (simp_all add: idle_def idle_with_facts exampleHandlers_def)
  have e: "effects_only [Effect (console_log ''unsubscribed'') :: (unit, unit) cmd]"
    by simp
  have "\<exists>s'. Observer_error 2 0 () idle_bare = Normal () s' \<and> isUnsubscribed (heap s' 0) \<and>
      calls s' = [(0, CallTeardown)]"
    using error_terminates [OF b(1) b(2) e, of "()" 0] b(3,4)
    by (simp add: numeral_2_eq_2 del: Observer_error.simps) blast
  moreover have "\<exists>s'. Observer_error 2 0 () idle = Normal () s' \<and> isUnsubscribed (heap s' 0) \<and>
      calls s' = [(0, CallError ()), (0, CallTeardown)]"
    using error_terminates [OF i(1) i(2) e, of "()" 0] i(3,4)
    by (simp add: numeral_2_eq_2 handleError_def del: Observer_error.simps) blast
  ultimately show ?thesis using b by blast
qed

subsection \<open>C7: \<open>complete\<close> called twice\<close>

text \<open>
  C7, as stated: on every observer two \<open>complete()\<close> calls call \<open>onComplete\<close> at most
  once and run the teardown at most once. With an \<open>onComplete\<close> handler that calls
  \<open>unsubscribe()\<close>, the first \<open>complete()\<close> alone runs the teardown twice; with one that
  throws, the flag stays false and the second \<open>complete()\<close> calls \<open>onComplete\<close> again.
\<close>

theorem complete_twice_counterexample:
  "(\<exists>s'. Observer_complete 3 0 (idle_with reentrantHandlers) = Normal () s' \<and>
      call_count 0 CallTeardown s' = 2) \<and>
   call_count 0 CallComplete
     (state_of (Observer_complete 3 0
        (state_of (Observer_complete 3 0 (idle_with throwingHandlers))))) = 2"
  by (simp add: idle_with_facts reentrantHandlers_def throwingHandlers_def call_count_def
        Let_def numeral_3_eq_3)

text \<open>
  C7, amended: on every observer whose \<open>onComplete\<close> handler and teardown (where
  present) only act on the outside world (they return, and do not call the observer),
  the first \<open>complete()\<close> returns and the second changes nothing, so the two calls together
  call \<open>onComplete\<close> at most once and run the teardown at most once. For any callbacks:
  if the first \<open>complete()\<close> returns, the second changes nothing.
\<close>

theorem complete_twice:
  "((case h_complete (handlers (heap s this)) of None \<Rightarrow> True | Some g \<Rightarrow> effects_only g) \<and>
    (case p_unsubscribe (heap s this) of None \<Rightarrow> True | Some td \<Rightarrow> effects_only td) \<longrightarrow>
      (\<exists>s1. Observer_complete (Suc (Suc d)) this s = Normal () s1 \<and>
         Observer_complete (Suc (Suc d)) this s1 = Normal () s1 \<and>
         call_count this CallComplete s1 \<le> Suc (call_count this CallComplete s) \<and>
         call_count this CallTeardown s1 \<le> Suc (call_count this CallTeardown s))) \<and>
   (Observer_complete k this s = Normal u s' \<longrightarrow> Observer_complete (Suc j) this s' = Normal () s')"
proof (intro conjI impI)
  assume "Observer_complete k this s = Normal u s'"
  from flag_after_complete [OF this] show "Observer_complete (Suc j) this s' = Normal () s'"
    by simp
next
  assume a: "(case h_complete (handlers (heap s this)) of None \<Rightarrow> True | Some g \<Rightarrow> effects_only g) \<and>
    (case p_unsubscribe (heap s this) of None \<Rightarrow> True | Some td \<Rightarrow> effects_only td)"
  let ?s0 = "case h_complete (handlers (heap s this)) of
               None \<Rightarrow> s
             | Some g \<Rightarrow> logged this CallComplete s\<lparr>world := effect_of g (world s)\<rparr>"
  have r: "(if h_complete (handlers (heap s this)) \<noteq> None
            then run (Suc d) this (reachable (heap s this))
                   (the (h_complete (handlers (heap s this)))) (logged this CallComplete s)
            else Normal () s) = Normal () ?s0"
    using a by (auto simp: run_effects_only)
  have f: "p_unsubscribe (heap ?s0 this) = p_unsubscribe (heap s this)"
    "calls ?s0 = calls s @ (if h_complete (handlers (heap s this)) \<noteq> None
                            then [(this, CallComplete)] else [])"
    by (auto split: option.splits)
  show "\<exists>s1. Observer_complete (Suc (Suc d)) this s = Normal () s1 \<and>
         Observer_complete (Suc (Suc d)) this s1 = Normal () s1 \<and>
         call_count this CallComplete s1 \<le> Suc (call_count this CallComplete s) \<and>
         call_count this CallTeardown s1 \<le> Suc (call_count this CallTeardown s)"
  proof (cases "isUnsubscribed (heap s this)")
    case True
    then show ?thesis by simp
  next
    case False
    show ?thesis
    proof (cases "p_unsubscribe (heap s this)")
      case None
      with f have "p_unsubscribe (heap ?s0 this) = None" by simp
      from unsubscribe_none [OF this, of d] False r f(2) show ?thesis
        by (simp add: call_count_def del: Observer_unsubscribe.simps)
    next
      case (Some td)
      with f have t: "p_unsubscribe (heap ?s0 this) = Some td" by simp
      from a Some have "effects_only td" by simp
      from unsubscribe_plain [OF t this, of d] False r f(2) show ?thesis
        by (simp add: call_count_def del: Observer_unsubscribe.simps)
    qed
  qed
qed

theorem complete_twice_witness:
  "(case h_complete (handlers (heap idle 0)) of None \<Rightarrow> True | Some g \<Rightarrow> effects_only g) \<and>
   (case p_unsubscribe (heap idle 0) of None \<Rightarrow> True | Some td \<Rightarrow> effects_only td) \<and>
   (\<exists>s1. Observer_complete 2 0 idle = Normal () s1 \<and> Observer_complete 2 0 s1 = Normal () s1 \<and>
      call_count 0 CallComplete s1 \<le> 1 \<and> call_count 0 CallTeardown s1 \<le> 1)"
proof -
  have a: "(case h_complete (handlers (heap idle 0)) of None \<Rightarrow> True | Some g \<Rightarrow> effects_only g) \<and>
   (case p_unsubscribe (heap idle 0) of None \<Rightarrow> True | Some td \<Rightarrow> effects_only td)"
    by (simp add: idle_def idle_with_facts exampleHandlers_def handleComplete_def)
  have c: "call_count 0 CallComplete idle = 0" "call_count 0 CallTeardown idle = 0"
    by (simp_all add: call_count_def idle_def idle_with_facts)
  from complete_twice [of idle 0 0] a
  have "\<exists>s1. Observer_complete (Suc (Suc 0)) 0 idle = Normal () s1 \<and>
         Observer_complete (Suc (Suc 0)) 0 s1 = Normal () s1 \<and>
         call_count 0 CallComplete s1 \<le> Suc (call_count 0 CallComplete idle) \<and>
         call_count 0 CallTeardown s1 \<le> Suc (call_count 0 CallTeardown idle)"
    by blast
  with a c show ?thesis
    by (simp add: numeral_2_eq_2 del: Observer_complete.simps)
qed

subsection \<open>C8: \<open>isUnsubscribed\<close> never reverts\<close>

text \<open>
  C8: for every observer and every sequence of calls of \<open>next\<close>, \<open>error\<close>, \<open>complete\<close> and
  \<open>unsubscribe\<close> (on it or on any other observer, returning or throwing, with any
  callbacks), if \<open>isUnsubscribed\<close> is true before the calls it is true after them.
\<close>

theorem isUnsubscribed_monotone:
  "isUnsubscribed (heap s this) \<Longrightarrow> isUnsubscribed (heap (run_calls d cs s) this)"
  by (rule flag_run_calls)

theorem isUnsubscribed_monotone_witness:
  "isUnsubscribed (heap (state_of (Observer_unsubscribe 1 0 idle)) 0) \<and>
   isUnsubscribed (heap (run_calls 3 [(0, Next (hd (requestsMock 0))), (0, Error ()), (0, Complete),
      (0, Unsubscribe), (1, Complete)] (state_of (Observer_unsubscribe 1 0 idle))) 0)"
proof -
  have "isUnsubscribed (heap (state_of (Observer_unsubscribe 1 0 idle)) 0)"
    using flag_after_unsubscribe [of 0 0 idle] by simp
  with isUnsubscribed_monotone [of "state_of (Observer_unsubscribe 1 0 idle)" 0 3
      "[(0, Next (hd (requestsMock 0))), (0, Error ()), (0, Complete), (0, Unsubscribe), (1, Complete)]"]
  show ?thesis by blast
qed

subsection \<open>C9: two subscriptions to one \<open>Observable.from\<close>\<close>

text \<open>
  C9: two \<open>subscribe\<close> calls on the same \<open>Observable.from(values)\<close>, one after the other,
  create two different observers, each holding its own handlers; each delivers the
  whole of \<open>values\<close>, then completion, to its own handlers (the calls made and their
  effect on the world are those of a full delivery, whatever the other subscription
  did); and the second subscription leaves the first observer as it was. That is what
  has happened whenever both calls return; and they do return when the handlers only
  act on the outside world and there is room for two nested calls.
\<close>

theorem from_subscriptions_independent:
  "(Observable_subscribe d (Observable_from vs) h1 s = Normal sub1 s1 \<and>
    Observable_subscribe j (Observable_from vs) h2 s1 = Normal sub2 s2 \<longrightarrow>
      observer_of sub1 \<noteq> observer_of sub2 \<and>
      calls s1 = calls s @ delivered_calls (observer_of sub1) h1 vs \<and>
      calls s2 = calls s1 @ delivered_calls (observer_of sub2) h2 vs \<and>
      world s1 = delivered_world h1 vs (world s) \<and>
      world s2 = delivered_world h2 vs (world s1) \<and>
      heap s2 (observer_of sub1) = heap s1 (observer_of sub1) \<and>
      handlers (heap s2 (observer_of sub1)) = h1 \<and>
      handlers (heap s2 (observer_of sub2)) = h2) \<and>
   ((\<forall>v\<in>set vs. (case h_next h1 of None \<Rightarrow> True | Some f \<Rightarrow> effects_only (fst (f v))) \<and>
                 (case h_next h2 of None \<Rightarrow> True | Some f \<Rightarrow> effects_only (fst (f v)))) \<and>
    (case h_complete h1 of None \<Rightarrow> True | Some g \<Rightarrow> effects_only g) \<and>
    (case h_complete h2 of None \<Rightarrow> True | Some g \<Rightarrow> effects_only g) \<longrightarrow>
      (\<exists>sub1 s1 sub2 s2.
         Observable_subscribe (Suc (Suc k)) (Observable_from vs) h1 s = Normal sub1 s1 \<and>
         Observable_subscribe (Suc (Suc k)) (Observable_from vs) h2 s1 = Normal sub2 s2))"
proof (rule conjI; rule impI)
  assume "Observable_subscribe d (Observable_from vs) h1 s = Normal sub1 s1 \<and>
    Observable_subscribe j (Observable_from vs) h2 s1 = Normal sub2 s2"
  then have r1: "Observable_subscribe d (Observable_from vs) h1 s = Normal sub1 s1"
    and r2: "Observable_subscribe j (Observable_from vs) h2 s1 = Normal sub2 s2"
    by simp_all
  from subscribe_from [OF r1] subscribe_from [OF r2]
  show "observer_of sub1 \<noteq> observer_of sub2 \<and>
      calls s1 = calls s @ delivered_calls (observer_of sub1) h1 vs \<and>
      calls s2 = calls s1 @ delivered_calls (observer_of sub2) h2 vs \<and>
      world s1 = delivered_world h1 vs (world s) \<and>
      world s2 = delivered_world h2 vs (world s1) \<and>
      heap s2 (observer_of sub1) = heap s1 (observer_of sub1) \<and>
      handlers (heap s2 (observer_of sub1)) = h1 \<and>
      handlers (heap s2 (observer_of sub2)) = h2"
    by simp
next
  assume a: "(\<forall>v\<in>set vs. (case h_next h1 of None \<Rightarrow> True | Some f \<Rightarrow> effects_only (fst (f v))) \<and>
                 (case h_next h2 of None \<Rightarrow> True | Some f \<Rightarrow> effects_only (fst (f v)))) \<and>
    (case h_complete h1 of None \<Rightarrow> True | Some g \<Rightarrow> effects_only g) \<and>
    (case h_complete h2 of None \<Rightarrow> True | Some g \<Rightarrow> effects_only g)"
  have "\<exists>sub1 s1. Observable_subscribe (Suc (Suc k)) (Observable_from vs) h1 s = Normal sub1 s1"
    using a by (intro subscribe_from_total) simp_all
  then obtain sub1 s1 where
    r1: "Observable_subscribe (Suc (Suc k)) (Observable_from vs) h1 s = Normal sub1 s1"
    by blast
  have "\<exists>sub2 s2. Observable_subscribe (Suc (Suc k)) (Observable_from vs) h2 s1 = Normal sub2 s2"
    using a by (intro subscribe_from_total) simp_all
  with r1 show "\<exists>sub1 s1 sub2 s2.
         Observable_subscribe (Suc (Suc k)) (Observable_from vs) h1 s = Normal sub1 s1 \<and>
         Observable_subscribe (Suc (Suc k)) (Observable_from vs) h2 s1 = Normal sub2 s2"
    by blast
qed

theorem from_subscriptions_independent_witness:
  "\<exists>sub1 s1 sub2 s2.
     Observable_subscribe 2 (Observable_from (requestsMock 0)) exampleHandlers
       (init_state () :: (unit, unit) state) = Normal sub1 s1 \<and>
     Observable_subscribe 2 (Observable_from (requestsMock 0)) exampleHandlers s1 = Normal sub2 s2 \<and>
     observer_of sub1 = 0 \<and> observer_of sub2 = 1 \<and>
     calls s2 = [(0, CallNext (requestsMock 0 ! 0)), (0, CallNext (requestsMock 0 ! 1)),
                 (0, CallComplete),
                 (1, CallNext (requestsMock 0 ! 0)), (1, CallNext (requestsMock 0 ! 1)),
                 (1, CallComplete)]"
proof -
  let ?s = "init_state () :: (unit, unit) state"
  let ?h = "exampleHandlers :: (unit, unit) IHandlers"
  let ?vs = "requestsMock 0"
  have e: "(\<forall>v\<in>set ?vs. (case h_next ?h of None \<Rightarrow> True | Some f \<Rightarrow> effects_only (fst (f v))) \<and>
                 (case h_next ?h of None \<Rightarrow> True | Some f \<Rightarrow> effects_only (fst (f v)))) \<and>
    (case h_complete ?h of None \<Rightarrow> True | Some g \<Rightarrow> effects_only g) \<and>
    (case h_complete ?h of None \<Rightarrow> True | Some g \<Rightarrow> effects_only g)"
    by (simp add: exampleHandlers_def handleRequest_def handleComplete_def)
  from from_subscriptions_independent [where ?h1.0 = ?h and ?h2.0 = ?h and vs = ?vs and s = ?s
      and k = 0] e
  obtain sub1 s1 sub2 s2 where
    r1: "Observable_subscribe (Suc (Suc 0)) (Observable_from ?vs) ?h ?s = Normal sub1 s1"
    and r2: "Observable_subscribe (Suc (Suc 0)) (Observable_from ?vs) ?h s1 = Normal sub2 s2"
    by blast
  from from_subscriptions_independent [where ?h1.0 = ?h and ?h2.0 = ?h and vs = ?vs and s = ?s
      and d = "Suc (Suc 0)" and j = "Suc (Suc 0)" and ?sub1.0 = sub1 and ?s1.0 = s1
      and ?sub2.0 = sub2 and ?s2.0 = s2] r1 r2
  have c: "calls s1 = calls ?s @ delivered_calls (observer_of sub1) ?h ?vs"
    "calls s2 = calls s1 @ delivered_calls (observer_of sub2) ?h ?vs"
    by blast+
  have o: "observer_of sub1 = 0" "observer_of sub2 = 1"
    using subscribe_from(1,2) [OF r1] subscribe_from(1) [OF r2]
    by (simp_all add: init_state_facts)
  from c o have "calls s2 = [(0, CallNext (requestsMock 0 ! 0)), (0, CallNext (requestsMock 0 ! 1)),
                 (0, CallComplete),
                 (1, CallNext (requestsMock 0 ! 0)), (1, CallNext (requestsMock 0 ! 1)),
                 (1, CallComplete)]"
    by (simp add: init_state_facts delivered_calls_def exampleHandlers_def requestsMock_def)
  with r1 r2 o show ?thesis
    unfolding numeral_2_eq_2 by blast
qed

subsection \<open>C10: what \<open>next\<close> leaves alone\<close>



end
